theory Spec2Isabelle
  imports Main
begin

section \<open>The data model of matrix.py\<close>

text \<open>
  The Python objects live on a heap and are shared by reference: a \<open>Node\<close> is
  pointed at by its row predecessor (or the row head) and by its column predecessor (or
  the column head). The model keeps, per matrix, an arena of nodes (a list); a reference
  is an index into the arena and \<open>None\<close> is Python's \<open>None\<close>. Creating a
  \<open>Node\<close> appends to the arena, so a new reference is always fresh, and a node
  that has been unlinked stays in the arena (as an unreachable Python object does until it
  is collected). No operation of the source shares a node between two matrices.

  Matrix values are modelled as exact integers (Python's \<open>int\<close>); floating-point
  rounding is not modelled. Coordinates and dimensions are Python integers, and indexing
  a Python list wraps a negative index around.

  An operation returns \<open>None\<close> when the source does not return (a loop that follows
  a cyclic chain for ever), \<open>Some (Inl e)\<close> when it raises \<open>e\<close>, and
  \<open>Some (Inr x)\<close> when it returns \<open>x\<close>.
\<close>

datatype error = IndexError | AttributeError | ValueError

type_synonym 'a res = "(error + 'a) option"

type_synonym ref = "nat option"

record node =
  row :: int
  col :: int
  el :: int
  right :: ref
  down :: ref

record matrix =
  nrows :: int
  ncols :: int
  prow :: "ref list"
  pcol :: "ref list"
  nodes :: "node list"

subsection \<open>Python list indexing\<close>

definition list_get :: "'a list \<Rightarrow> int \<Rightarrow> error + 'a" where
  "list_get xs i =
     (if 0 \<le> i \<and> i < int (length xs) then Inr (xs ! nat i)
      else if - int (length xs) \<le> i \<and> i < 0 then Inr (xs ! nat (i + int (length xs)))
      else Inl IndexError)"

definition list_set :: "'a list \<Rightarrow> int \<Rightarrow> 'a \<Rightarrow> error + 'a list" where
  "list_set xs i v =
     (if 0 \<le> i \<and> i < int (length xs) then Inr (xs[nat i := v])
      else if - int (length xs) \<le> i \<and> i < 0 then Inr (xs[nat (i + int (length xs)) := v])
      else Inl IndexError)"

subsection \<open>Construction\<close>

text \<open>\<open>Matrix.__init__\<close>: \<open>[None] * nrows\<close> is the empty list for a negative count.\<close>

definition Matrix :: "int \<Rightarrow> int \<Rightarrow> matrix" where
  "Matrix nr nc =
     \<lparr>nrows = nr, ncols = nc, prow = replicate (nat nr) None,
      pcol = replicate (nat nc) None, nodes = []\<rparr>"

subsection \<open>\<open>_findnode\<close>\<close>

text \<open>The loop \<open>while p is not None and p.col < col: q = p; p = p.right\<close>.\<close>

partial_function (option) findnode_loop ::
  "node list \<Rightarrow> int \<Rightarrow> ref \<Rightarrow> ref \<Rightarrow> (ref \<times> ref) option" where
  "findnode_loop h c p q =
     (case p of
        None \<Rightarrow> Some (p, q)
      | Some a \<Rightarrow>
          if col (h ! a) < c then findnode_loop h c (right (h ! a)) p
          else Some (p, q))"

declare findnode_loop.simps [code]

definition findnode :: "matrix \<Rightarrow> int \<Rightarrow> int \<Rightarrow> (ref \<times> ref) res" where
  "findnode M r c =
     (case list_get (prow M) r of
        Inl e \<Rightarrow> Some (Inl e)
      | Inr p0 \<Rightarrow>
          (case findnode_loop (nodes M) c p0 None of
             None \<Rightarrow> None
           | Some (p, q) \<Rightarrow>
               (case p of
                  None \<Rightarrow> Some (Inr (p, q))
                | Some a \<Rightarrow>
                    if col (nodes M ! a) = c then Some (Inr (p, q))
                    else Some (Inr (None, q)))))"

subsection \<open>\<open>_insertnode\<close>\<close>

text \<open>The loop \<open>while p is not None and p.row < row: m = p; p = p.down\<close>.\<close>

partial_function (option) insertnode_loop ::
  "node list \<Rightarrow> int \<Rightarrow> ref \<Rightarrow> ref \<Rightarrow> (ref \<times> ref) option" where
  "insertnode_loop h r p m =
     (case p of
        None \<Rightarrow> Some (p, m)
      | Some a \<Rightarrow>
          if row (h ! a) < r then insertnode_loop h r (down (h ! a)) p
          else Some (p, m))"

declare insertnode_loop.simps [code]

text \<open>Assignments to one field of one node: \<open>a.right = x\<close>, \<open>a.down = d\<close>, \<open>a.el = v\<close>.\<close>

definition set_right :: "node list \<Rightarrow> nat \<Rightarrow> ref \<Rightarrow> node list" where
  "set_right h a x = h[a := (h ! a)\<lparr>right := x\<rparr>]"

definition set_down :: "node list \<Rightarrow> nat \<Rightarrow> ref \<Rightarrow> node list" where
  "set_down h a d = h[a := (h ! a)\<lparr>down := d\<rparr>]"

definition set_el :: "node list \<Rightarrow> nat \<Rightarrow> int \<Rightarrow> node list" where
  "set_el h a v = h[a := (h ! a)\<lparr>el := v\<rparr>]"

text \<open>
  The row splice: the new node \<open>n\<close> is linked after \<open>q\<close>
  (\<open>n.right = q.right; q.right = n\<close>), or at the head of row \<open>r\<close> when
  \<open>q\<close> is \<open>None\<close> (\<open>n.right = self._prow[row]; self._prow[row] = n\<close>).
\<close>

definition insert_row :: "matrix \<Rightarrow> int \<Rightarrow> ref \<Rightarrow> nat \<Rightarrow> error + matrix" where
  "insert_row M r q n =
     (case q of
        Some b \<Rightarrow>
          Inr (M\<lparr>nodes := set_right (set_right (nodes M) n (right (nodes M ! b))) b (Some n)\<rparr>)
      | None \<Rightarrow>
          (case list_get (prow M) r of
             Inl e \<Rightarrow> Inl e
           | Inr p0 \<Rightarrow>
               (case list_set (prow M) r (Some n) of
                  Inl e \<Rightarrow> Inl e
                | Inr pr \<Rightarrow>
                    Inr (M\<lparr>prow := pr, nodes := set_right (nodes M) n p0\<rparr>))))"

text \<open>
  The column splice, after the walk has stopped at \<open>p\<close> with predecessor
  \<open>m\<close>. Both branches of the source end with the same two-way choice, written
  once as \<open>link_col\<close>: \<open>m.down = n\<close> when \<open>m\<close> is a node,
  \<open>self._pcol[col] = n\<close> when it is \<open>None\<close>. The second branch sets
  \<open>n.down = p\<close> first.
\<close>

definition link_col :: "matrix \<Rightarrow> int \<Rightarrow> ref \<Rightarrow> nat \<Rightarrow> error + matrix" where
  "link_col M c m n =
     (case m of
        Some b \<Rightarrow> Inr (M\<lparr>nodes := set_down (nodes M) b (Some n)\<rparr>)
      | None \<Rightarrow>
          (case list_set (pcol M) c (Some n) of
             Inl e \<Rightarrow> Inl e
           | Inr pc \<Rightarrow> Inr (M\<lparr>pcol := pc\<rparr>)))"

definition insert_col :: "matrix \<Rightarrow> int \<Rightarrow> int \<Rightarrow> ref \<Rightarrow> ref \<Rightarrow> nat \<Rightarrow> error + matrix" where
  "insert_col M r c p m n =
     (if (case p of None \<Rightarrow> True | Some a \<Rightarrow> row (nodes M ! a) = r)
      then link_col M c m n
      else link_col (M\<lparr>nodes := set_down (nodes M) n p\<rparr>) c m n)"

definition insertnode :: "matrix \<Rightarrow> int \<Rightarrow> int \<Rightarrow> ref \<Rightarrow> int \<Rightarrow> matrix res" where
  "insertnode M r c q v =
     (let n = length (nodes M);
          M0 = M\<lparr>nodes := nodes M @ [\<lparr>row = r, col = c, el = v, right = None, down = None\<rparr>]\<rparr>
      in case insert_row M0 r q n of
           Inl e \<Rightarrow> Some (Inl e)
         | Inr M1 \<Rightarrow>
             (case list_get (pcol M1) c of
                Inl e \<Rightarrow> Some (Inl e)
              | Inr p0 \<Rightarrow>
                  (case insertnode_loop (nodes M1) r p0 None of
                     None \<Rightarrow> None
                   | Some (p, m) \<Rightarrow> Some (insert_col M1 r c p m n))))"

subsection \<open>\<open>_removenode\<close>\<close>

text \<open>
  The loop \<open>while n.row != p.row: m = n; n = n.down\<close>: reading \<open>n.row\<close> when
  \<open>n\<close> is \<open>None\<close> raises AttributeError.
\<close>

partial_function (option) removenode_loop ::
  "node list \<Rightarrow> int \<Rightarrow> ref \<Rightarrow> ref \<Rightarrow> ref res" where
  "removenode_loop h r n m =
     (case n of
        None \<Rightarrow> Some (Inl AttributeError)
      | Some a \<Rightarrow>
          if row (h ! a) \<noteq> r then removenode_loop h r (down (h ! a)) n
          else Some (Inr m))"

declare removenode_loop.simps [code]

definition remove_row :: "matrix \<Rightarrow> nat \<Rightarrow> ref \<Rightarrow> error + matrix" where
  "remove_row M a q =
     (case q of
        Some b \<Rightarrow>
          (if right (nodes M ! a) \<noteq> None
           then Inr (M\<lparr>nodes := set_right (nodes M) b (right (nodes M ! a))\<rparr>)
           else Inr (M\<lparr>nodes := set_right (nodes M) b None\<rparr>))
      | None \<Rightarrow>
          (if right (nodes M ! a) \<noteq> None
           then map_sum id (\<lambda>pr. M\<lparr>prow := pr\<rparr>)
                  (list_set (prow M) (row (nodes M ! a)) (right (nodes M ! a)))
           else map_sum id (\<lambda>pr. M\<lparr>prow := pr\<rparr>)
                  (list_set (prow M) (row (nodes M ! a)) None)))"

definition remove_col :: "matrix \<Rightarrow> nat \<Rightarrow> matrix res" where
  "remove_col M a =
     (case list_get (pcol M) (col (nodes M ! a)) of
        Inl e \<Rightarrow> Some (Inl e)
      | Inr p0 \<Rightarrow>
          if p0 = Some a then
            (if down (nodes M ! a) \<noteq> None
             then Some (map_sum id (\<lambda>pc. M\<lparr>pcol := pc\<rparr>)
                    (list_set (pcol M) (col (nodes M ! a)) (down (nodes M ! a))))
             else Some (map_sum id (\<lambda>pc. M\<lparr>pcol := pc\<rparr>)
                    (list_set (pcol M) (col (nodes M ! a)) None)))
          else
            (case removenode_loop (nodes M) (row (nodes M ! a)) p0 None of
               None \<Rightarrow> None
             | Some (Inl e) \<Rightarrow> Some (Inl e)
             | Some (Inr m) \<Rightarrow>
                 (case m of
                    None \<Rightarrow> Some (Inl AttributeError)
                  | Some b \<Rightarrow>
                      if down (nodes M ! a) \<noteq> None
                      then Some (Inr (M\<lparr>nodes := set_down (nodes M) b (down (nodes M ! a))\<rparr>))
                      else Some (Inr (M\<lparr>nodes := set_down (nodes M) b None\<rparr>)))))"

definition removenode :: "matrix \<Rightarrow> ref \<Rightarrow> ref \<Rightarrow> matrix res" where
  "removenode M p q =
     (case p of
        None \<Rightarrow> Some (Inl AttributeError)
      | Some a \<Rightarrow>
          (case remove_row M a q of
             Inl e \<Rightarrow> Some (Inl e)
           | Inr M1 \<Rightarrow> remove_col M1 a))"

subsection \<open>\<open>__getitem__\<close> and \<open>__setitem__\<close>\<close>

definition getitem :: "matrix \<Rightarrow> int \<Rightarrow> int \<Rightarrow> int res" where
  "getitem M r c =
     (case findnode M r c of
        None \<Rightarrow> None
      | Some (Inl e) \<Rightarrow> Some (Inl e)
      | Some (Inr (p, q)) \<Rightarrow>
          (case p of
             None \<Rightarrow> Some (Inr 0)
           | Some a \<Rightarrow> Some (Inr (el (nodes M ! a)))))"

definition setitem :: "matrix \<Rightarrow> int \<Rightarrow> int \<Rightarrow> int \<Rightarrow> matrix res" where
  "setitem M r c v =
     (case findnode M r c of
        None \<Rightarrow> None
      | Some (Inl e) \<Rightarrow> Some (Inl e)
      | Some (Inr (p, q)) \<Rightarrow>
          (case p of
             None \<Rightarrow> if v \<noteq> 0 then insertnode M r c q v else Some (Inr M)
           | Some a \<Rightarrow>
               if v = 0 then removenode M p q
               else Some (Inr (M\<lparr>nodes := set_el (nodes M) a v\<rparr>))))"

subsection \<open>\<open>identity\<close>\<close>

text \<open>\<open>for i in range(n): M[i,i] = 1.0\<close>, the loop as recursion on the indices left.\<close>

fun identity_loop :: "matrix \<Rightarrow> int list \<Rightarrow> matrix res" where
  "identity_loop M [] = Some (Inr M)"
| "identity_loop M (i # is) =
     (case setitem M i i 1 of
        None \<Rightarrow> None
      | Some (Inl e) \<Rightarrow> Some (Inl e)
      | Some (Inr M') \<Rightarrow> identity_loop M' is)"

definition identity :: "int \<Rightarrow> matrix res" where
  "identity n = identity_loop (Matrix n n) (map int [0..<nat n])"

subsection \<open>\<open>__eq__\<close>\<close>

text \<open>
  The inner loop of \<open>__eq__\<close> on one row: \<open>False\<close> stands for the early
  \<open>return False\<close>, \<open>True\<close> for falling through to the next row.
\<close>

partial_function (option) eq_row :: "node list \<Rightarrow> node list \<Rightarrow> ref \<Rightarrow> ref \<Rightarrow> bool option" where
  "eq_row h1 h2 p1 p2 =
     (case p1 of
        None \<Rightarrow> Some (p2 = None)
      | Some a1 \<Rightarrow>
          (case p2 of
             None \<Rightarrow> Some False
           | Some a2 \<Rightarrow>
               if col (h1 ! a1) \<noteq> col (h2 ! a2) \<or> el (h1 ! a1) \<noteq> el (h2 ! a2) then Some False
               else eq_row h1 h2 (right (h1 ! a1)) (right (h2 ! a2))))"

declare eq_row.simps [code]

fun eq_rows :: "matrix \<Rightarrow> matrix \<Rightarrow> int list \<Rightarrow> bool res" where
  "eq_rows M N [] = Some (Inr True)"
| "eq_rows M N (r # rs) =
     (case list_get (prow M) r of
        Inl e \<Rightarrow> Some (Inl e)
      | Inr p1 \<Rightarrow>
          (case list_get (prow N) r of
             Inl e \<Rightarrow> Some (Inl e)
           | Inr p2 \<Rightarrow>
               (case eq_row (nodes M) (nodes N) p1 p2 of
                  None \<Rightarrow> None
                | Some b \<Rightarrow> if b then eq_rows M N rs else Some (Inr False))))"

definition eq :: "matrix \<Rightarrow> matrix \<Rightarrow> bool res" where
  "eq M N =
     (if nrows M \<noteq> nrows N \<or> ncols M \<noteq> ncols N then Some (Inr False)
      else eq_rows M N (map int [0..<nat (nrows M)]))"

subsection \<open>Skipping empty rows or columns\<close>

text \<open>
  \<open>while p is None: i += 1; p = heads[i]\<close>: the scan for the first row (or column)
  with an entry, as \<open>__mul__\<close>, \<open>__rmul__\<close>, \<open>transposed\<close> and
  \<open>__add__\<close> all start. It has no bound on \<open>i\<close>: when every head is
  \<open>None\<close> the index runs off the end of the list.
\<close>

partial_function (option) skip_leading :: "ref list \<Rightarrow> int \<Rightarrow> ref \<Rightarrow> (int \<times> ref) res" where
  "skip_leading heads i p =
     (case p of
        None \<Rightarrow>
          (case list_get heads (i + 1) of
             Inl e \<Rightarrow> Some (Inl e)
           | Inr p' \<Rightarrow> skip_leading heads (i + 1) p')
      | Some a \<Rightarrow> Some (Inr (i, p)))"

declare skip_leading.simps [code]

text \<open>
  \<open>while heads[i] is None and i != n - 1: i += 1\<close>: the scan between two rows (or
  columns) of \<open>transposed\<close> and \<open>__add__\<close>, which stops at the last index.
\<close>

partial_function (option) skip_interior :: "ref list \<Rightarrow> int \<Rightarrow> int \<Rightarrow> int res" where
  "skip_interior heads n i =
     (case list_get heads i of
        Inl e \<Rightarrow> Some (Inl e)
      | Inr p \<Rightarrow>
          if p = None \<and> i \<noteq> n - 1 then skip_interior heads n (i + 1)
          else Some (Inr i))"

declare skip_interior.simps [code]

subsection \<open>\<open>__mul__\<close> and \<open>__rmul__\<close>\<close>

text \<open>\<open>result[i] += entry\<close>\<close>

definition list_add :: "int list \<Rightarrow> int \<Rightarrow> int \<Rightarrow> error + int list" where
  "list_add xs i v =
     (case list_get xs i of
        Inl e \<Rightarrow> Inl e
      | Inr x \<Rightarrow> list_set xs i (x + v))"

text \<open>
  \<open>while q is not None and q.col != self.ncols: entry += q.el * rhs[q.col]; q = q.right\<close>
  (the source has this loop twice, on \<open>q\<close> and on \<open>p\<close>).
\<close>

partial_function (option) mul_row ::
  "node list \<Rightarrow> int \<Rightarrow> int list \<Rightarrow> ref \<Rightarrow> int \<Rightarrow> int res" where
  "mul_row h nc rhs q entry =
     (case q of
        None \<Rightarrow> Some (Inr entry)
      | Some a \<Rightarrow>
          if col (h ! a) \<noteq> nc then
            (case list_get rhs (col (h ! a)) of
               Inl e \<Rightarrow> Some (Inl e)
             | Inr x \<Rightarrow> mul_row h nc rhs (right (h ! a)) (entry + el (h ! a) * x))
          else Some (Inr entry))"

declare mul_row.simps [code]

text \<open>The loop \<open>while i != self.nrows-1\<close> of \<open>__mul__\<close>.\<close>

partial_function (option) mul_rows ::
  "matrix \<Rightarrow> int list \<Rightarrow> int \<Rightarrow> ref \<Rightarrow> int list \<Rightarrow> (int \<times> ref \<times> int list) res" where
  "mul_rows M rhs i p result =
     (if i \<noteq> nrows M - 1 then
        (case mul_row (nodes M) (ncols M) rhs p 0 of
           None \<Rightarrow> None
         | Some (Inl e) \<Rightarrow> Some (Inl e)
         | Some (Inr entry) \<Rightarrow>
             (case list_add result i entry of
                Inl e \<Rightarrow> Some (Inl e)
              | Inr result' \<Rightarrow>
                  (case list_get (prow M) (i + 1) of
                     Inl e \<Rightarrow> Some (Inl e)
                   | Inr p' \<Rightarrow> mul_rows M rhs (i + 1) p' result')))
      else Some (Inr (i, p, result)))"

declare mul_rows.simps [code]

definition mul :: "matrix \<Rightarrow> int list \<Rightarrow> int list res" where
  "mul M rhs =
     (if ncols M \<noteq> int (length rhs) then Some (Inl ValueError)
      else
        (case list_get (prow M) 0 of
           Inl e \<Rightarrow> Some (Inl e)
         | Inr p0 \<Rightarrow>
             (case skip_leading (prow M) 0 p0 of
                None \<Rightarrow> None
              | Some (Inl e) \<Rightarrow> Some (Inl e)
              | Some (Inr (i0, p1)) \<Rightarrow>
                  (case mul_rows M rhs i0 p1 (replicate (nat (nrows M)) 0) of
                     None \<Rightarrow> None
                   | Some (Inl e) \<Rightarrow> Some (Inl e)
                   | Some (Inr (i, p, result)) \<Rightarrow>
                       (case mul_row (nodes M) (ncols M) rhs p 0 of
                          None \<Rightarrow> None
                        | Some (Inl e) \<Rightarrow> Some (Inl e)
                        | Some (Inr entry) \<Rightarrow> Some (list_add result i entry))))))"

text \<open>
  \<open>while q is not None and q.row != self.nrows: entry += lhs[q.row] * q.el; q = q.down\<close>
\<close>

partial_function (option) rmul_col ::
  "node list \<Rightarrow> int \<Rightarrow> int list \<Rightarrow> ref \<Rightarrow> int \<Rightarrow> int res" where
  "rmul_col h nr lhs q entry =
     (case q of
        None \<Rightarrow> Some (Inr entry)
      | Some a \<Rightarrow>
          if row (h ! a) \<noteq> nr then
            (case list_get lhs (row (h ! a)) of
               Inl e \<Rightarrow> Some (Inl e)
             | Inr x \<Rightarrow> rmul_col h nr lhs (down (h ! a)) (entry + x * el (h ! a)))
          else Some (Inr entry))"

declare rmul_col.simps [code]

partial_function (option) rmul_cols ::
  "matrix \<Rightarrow> int list \<Rightarrow> int \<Rightarrow> ref \<Rightarrow> int list \<Rightarrow> (int \<times> ref \<times> int list) res" where
  "rmul_cols M lhs i p result =
     (if i \<noteq> ncols M - 1 then
        (case rmul_col (nodes M) (nrows M) lhs p 0 of
           None \<Rightarrow> None
         | Some (Inl e) \<Rightarrow> Some (Inl e)
         | Some (Inr entry) \<Rightarrow>
             (case list_add result i entry of
                Inl e \<Rightarrow> Some (Inl e)
              | Inr result' \<Rightarrow>
                  (case list_get (pcol M) (i + 1) of
                     Inl e \<Rightarrow> Some (Inl e)
                   | Inr p' \<Rightarrow> rmul_cols M lhs (i + 1) p' result')))
      else Some (Inr (i, p, result)))"

declare rmul_cols.simps [code]

definition rmul :: "int list \<Rightarrow> matrix \<Rightarrow> int list res" where
  "rmul lhs M =
     (if nrows M \<noteq> int (length lhs) then Some (Inl ValueError)
      else
        (case list_get (pcol M) 0 of
           Inl e \<Rightarrow> Some (Inl e)
         | Inr p0 \<Rightarrow>
             (case skip_leading (pcol M) 0 p0 of
                None \<Rightarrow> None
              | Some (Inl e) \<Rightarrow> Some (Inl e)
              | Some (Inr (i0, p1)) \<Rightarrow>
                  (case rmul_cols M lhs i0 p1 (replicate (nat (ncols M)) 0) of
                     None \<Rightarrow> None
                   | Some (Inl e) \<Rightarrow> Some (Inl e)
                   | Some (Inr (i, p, result)) \<Rightarrow>
                       (case rmul_col (nodes M) (nrows M) lhs p 0 of
                          None \<Rightarrow> None
                        | Some (Inl e) \<Rightarrow> Some (Inl e)
                        | Some (Inr entry) \<Rightarrow> Some (list_add result i entry))))))"

subsection \<open>\<open>transposed\<close>\<close>

text \<open>
  The inner loop of \<open>transposed\<close>, down one column of \<open>M\<close> into row
  \<open>i\<close> of the result \<open>R\<close>:
  \<open>while q is not None and q.row != self.nrows:
      result._insertnode(i, q.row, m, q.el); m = m.right; q = q.down\<close>
\<close>

partial_function (option) transposed_col ::
  "matrix \<Rightarrow> int \<Rightarrow> matrix \<Rightarrow> ref \<Rightarrow> ref \<Rightarrow> (matrix \<times> ref) res" where
  "transposed_col M i R m q =
     (case q of
        None \<Rightarrow> Some (Inr (R, m))
      | Some a \<Rightarrow>
          if row (nodes M ! a) \<noteq> nrows M then
            (case insertnode R i (row (nodes M ! a)) m (el (nodes M ! a)) of
               None \<Rightarrow> None
             | Some (Inl e) \<Rightarrow> Some (Inl e)
             | Some (Inr R') \<Rightarrow>
                 (case m of
                    None \<Rightarrow> Some (Inl AttributeError)
                  | Some b \<Rightarrow> transposed_col M i R' (right (nodes R' ! b)) (down (nodes M ! a))))
          else Some (Inr (R, m)))"

declare transposed_col.simps [code]

text \<open>The loop \<open>while i != self.ncols - 1\<close> of \<open>transposed\<close>.\<close>

partial_function (option) transposed_cols ::
  "matrix \<Rightarrow> matrix \<Rightarrow> int \<Rightarrow> ref \<Rightarrow> ref \<Rightarrow> (matrix \<times> int \<times> ref \<times> ref) res" where
  "transposed_cols M R i p m =
     (if i \<noteq> ncols M - 1 then
        (case p of
           None \<Rightarrow> Some (Inl AttributeError)
         | Some a \<Rightarrow>
             (case insertnode R i (row (nodes M ! a)) m (el (nodes M ! a)) of
                None \<Rightarrow> None
              | Some (Inl e) \<Rightarrow> Some (Inl e)
              | Some (Inr R1) \<Rightarrow>
                  (case list_get (prow R1) i of
                     Inl e \<Rightarrow> Some (Inl e)
                   | Inr m1 \<Rightarrow>
                       (case transposed_col M i R1 m1 (down (nodes M ! a)) of
                          None \<Rightarrow> None
                        | Some (Inl e) \<Rightarrow> Some (Inl e)
                        | Some (Inr (R2, m2)) \<Rightarrow>
                            (case skip_interior (pcol M) (ncols M) (i + 1) of
                               None \<Rightarrow> None
                             | Some (Inl e) \<Rightarrow> Some (Inl e)
                             | Some (Inr i') \<Rightarrow>
                                 (case list_get (pcol M) i' of
                                    Inl e \<Rightarrow> Some (Inl e)
                                  | Inr p' \<Rightarrow>
                                      (case list_get (prow R2) i' of
                                         Inl e \<Rightarrow> Some (Inl e)
                                       | Inr m' \<Rightarrow> transposed_cols M R2 i' p' m')))))))
      else Some (Inr (R, i, p, m)))"

declare transposed_cols.simps [code]

text \<open>
  The last loop of \<open>transposed\<close>:
  \<open>while p is not None and p.row != self.nrows:
      result._insertnode(i, p.row, m, p.el)
      if m is None: m = result._prow[i]
      else: m = m.right
      p = p.down\<close>
\<close>

partial_function (option) transposed_last ::
  "matrix \<Rightarrow> int \<Rightarrow> matrix \<Rightarrow> ref \<Rightarrow> ref \<Rightarrow> matrix res" where
  "transposed_last M i R m p =
     (case p of
        None \<Rightarrow> Some (Inr R)
      | Some a \<Rightarrow>
          if row (nodes M ! a) \<noteq> nrows M then
            (case insertnode R i (row (nodes M ! a)) m (el (nodes M ! a)) of
               None \<Rightarrow> None
             | Some (Inl e) \<Rightarrow> Some (Inl e)
             | Some (Inr R') \<Rightarrow>
                 (case m of
                    None \<Rightarrow>
                      (case list_get (prow R') i of
                         Inl e \<Rightarrow> Some (Inl e)
                       | Inr m' \<Rightarrow> transposed_last M i R' m' (down (nodes M ! a)))
                  | Some b \<Rightarrow> transposed_last M i R' (right (nodes R' ! b)) (down (nodes M ! a))))
          else Some (Inr R))"

declare transposed_last.simps [code]

definition transposed :: "matrix \<Rightarrow> matrix res" where
  "transposed M =
     (case list_get (pcol M) 0 of
        Inl e \<Rightarrow> Some (Inl e)
      | Inr p0 \<Rightarrow>
          (case skip_leading (pcol M) 0 p0 of
             None \<Rightarrow> None
           | Some (Inl e) \<Rightarrow> Some (Inl e)
           | Some (Inr (i0, p1)) \<Rightarrow>
               (case list_get (prow (Matrix (ncols M) (nrows M))) i0 of
                  Inl e \<Rightarrow> Some (Inl e)
                | Inr m0 \<Rightarrow>
                    (case transposed_cols M (Matrix (ncols M) (nrows M)) i0 p1 m0 of
                       None \<Rightarrow> None
                     | Some (Inl e) \<Rightarrow> Some (Inl e)
                     | Some (Inr (R, i, p, m)) \<Rightarrow> transposed_last M i R m p))))"

subsection \<open>\<open>__add__\<close>, first part: copying \<open>self\<close> into the result\<close>

text \<open>
  \<open>while q is not None and q.col != self.ncols:
      result._insertnode(i, q.col, m, q.el); m = m.right; q = q.right\<close>
\<close>

partial_function (option) add_copy_row ::
  "matrix \<Rightarrow> int \<Rightarrow> matrix \<Rightarrow> ref \<Rightarrow> ref \<Rightarrow> (matrix \<times> ref) res" where
  "add_copy_row M i R m q =
     (case q of
        None \<Rightarrow> Some (Inr (R, m))
      | Some a \<Rightarrow>
          if col (nodes M ! a) \<noteq> ncols M then
            (case insertnode R i (col (nodes M ! a)) m (el (nodes M ! a)) of
               None \<Rightarrow> None
             | Some (Inl e) \<Rightarrow> Some (Inl e)
             | Some (Inr R') \<Rightarrow>
                 (case m of
                    None \<Rightarrow> Some (Inl AttributeError)
                  | Some b \<Rightarrow> add_copy_row M i R' (right (nodes R' ! b)) (right (nodes M ! a))))
          else Some (Inr (R, m)))"

declare add_copy_row.simps [code]

text \<open>The first loop \<open>while i != self.nrows - 1\<close> of \<open>__add__\<close>.\<close>

partial_function (option) add_copy_rows ::
  "matrix \<Rightarrow> matrix \<Rightarrow> int \<Rightarrow> ref \<Rightarrow> ref \<Rightarrow> (matrix \<times> int \<times> ref \<times> ref) res" where
  "add_copy_rows M R i p m =
     (if i \<noteq> nrows M - 1 then
        (case p of
           None \<Rightarrow> Some (Inl AttributeError)
         | Some a \<Rightarrow>
             (case insertnode R i (col (nodes M ! a)) m (el (nodes M ! a)) of
                None \<Rightarrow> None
              | Some (Inl e) \<Rightarrow> Some (Inl e)
              | Some (Inr R1) \<Rightarrow>
                  (case list_get (prow R1) i of
                     Inl e \<Rightarrow> Some (Inl e)
                   | Inr m1 \<Rightarrow>
                       (case add_copy_row M i R1 m1 (right (nodes M ! a)) of
                          None \<Rightarrow> None
                        | Some (Inl e) \<Rightarrow> Some (Inl e)
                        | Some (Inr (R2, m2)) \<Rightarrow>
                            (case skip_interior (prow M) (nrows M) (i + 1) of
                               None \<Rightarrow> None
                             | Some (Inl e) \<Rightarrow> Some (Inl e)
                             | Some (Inr i') \<Rightarrow>
                                 (case list_get (prow M) i' of
                                    Inl e \<Rightarrow> Some (Inl e)
                                  | Inr p' \<Rightarrow>
                                      (case list_get (prow R2) i' of
                                         Inl e \<Rightarrow> Some (Inl e)
                                       | Inr m' \<Rightarrow> add_copy_rows M R2 i' p' m')))))))
      else Some (Inr (R, i, p, m)))"

declare add_copy_rows.simps [code]

text \<open>
  \<open>while p is not None and p.col != self.ncols:
      result._insertnode(i, p.col, m, p.el)
      if m is None: m = result._prow[i]
      else: m = m.right
      p = p.right\<close>
\<close>

partial_function (option) add_copy_last ::
  "matrix \<Rightarrow> int \<Rightarrow> matrix \<Rightarrow> ref \<Rightarrow> ref \<Rightarrow> matrix res" where
  "add_copy_last M i R m p =
     (case p of
        None \<Rightarrow> Some (Inr R)
      | Some a \<Rightarrow>
          if col (nodes M ! a) \<noteq> ncols M then
            (case insertnode R i (col (nodes M ! a)) m (el (nodes M ! a)) of
               None \<Rightarrow> None
             | Some (Inl e) \<Rightarrow> Some (Inl e)
             | Some (Inr R') \<Rightarrow>
                 (case m of
                    None \<Rightarrow>
                      (case list_get (prow R') i of
                         Inl e \<Rightarrow> Some (Inl e)
                       | Inr m' \<Rightarrow> add_copy_last M i R' m' (right (nodes M ! a)))
                  | Some b \<Rightarrow> add_copy_last M i R' (right (nodes R' ! b)) (right (nodes M ! a))))
          else Some (Inr R))"

declare add_copy_last.simps [code]

subsection \<open>\<open>__add__\<close>, second part: merging \<open>rhs\<close> into the result\<close>

text \<open>
  The pair \<open>a, b = result._findnode(i, c); result._removenode(a, b)\<close>, which the merge
  runs on an exact cancellation.
\<close>

definition find_remove :: "matrix \<Rightarrow> int \<Rightarrow> int \<Rightarrow> matrix res" where
  "find_remove R i c =
     (case findnode R i c of
        None \<Rightarrow> None
      | Some (Inl e) \<Rightarrow> Some (Inl e)
      | Some (Inr (a, b)) \<Rightarrow> removenode R a b)"

text \<open>\<open>n.el += v\<close>\<close>

definition add_el :: "matrix \<Rightarrow> nat \<Rightarrow> int \<Rightarrow> matrix" where
  "add_el R a v = R\<lparr>nodes := set_el (nodes R) a (el (nodes R ! a) + v)\<rparr>"

text \<open>
  The innermost loop of the merge, for one entry of \<open>rhs\<close> with column \<open>qc\<close> and
  value \<open>qv\<close>; \<open>m\<close> and \<open>n\<close> are cursors into row \<open>i\<close> of the result:
  \<open>while n is not None and q.col > n.col:
      n = n.right
      if n is None or n.col > q.col:
        result._insertnode(i, q.col, m, q.el); m = m.right; n = m
      elif n.col == q.col:
        if n.el + q.el == 0:
          a, b = result._findnode(i, n.col); result._removenode(a, b)
        else:
          n.el += q.el
      if n is not None:
        m = n\<close>
  In the first branch \<open>n\<close> and \<open>m\<close> both end as the old \<open>m.right\<close>; in the
  other two \<open>n\<close> is a node and \<open>m\<close> becomes it. The cursor \<open>n\<close> keeps
  pointing at a node that \<open>_removenode\<close> has just unlinked.
\<close>

partial_function (option) add_scan ::
  "matrix \<Rightarrow> int \<Rightarrow> int \<Rightarrow> int \<Rightarrow> ref \<Rightarrow> ref \<Rightarrow> (matrix \<times> ref) res" where
  "add_scan R i qc qv m n =
     (case n of
        None \<Rightarrow> Some (Inr (R, m))
      | Some a \<Rightarrow>
          if qc > col (nodes R ! a) then
            (if (case right (nodes R ! a) of None \<Rightarrow> True | Some a1 \<Rightarrow> col (nodes R ! a1) > qc)
             then
               (case insertnode R i qc m qv of
                  None \<Rightarrow> None
                | Some (Inl e) \<Rightarrow> Some (Inl e)
                | Some (Inr R') \<Rightarrow>
                    (case m of
                       None \<Rightarrow> Some (Inl AttributeError)
                     | Some b \<Rightarrow> add_scan R' i qc qv (right (nodes R' ! b)) (right (nodes R' ! b))))
             else
               (case right (nodes R ! a) of
                  None \<Rightarrow> Some (Inr (R, m))
                | Some a1 \<Rightarrow>
                    if col (nodes R ! a1) = qc then
                      (if el (nodes R ! a1) + qv = 0 then
                         (case find_remove R i (col (nodes R ! a1)) of
                            None \<Rightarrow> None
                          | Some (Inl e) \<Rightarrow> Some (Inl e)
                          | Some (Inr R') \<Rightarrow> add_scan R' i qc qv (Some a1) (Some a1))
                       else add_scan (add_el R a1 qv) i qc qv (Some a1) (Some a1))
                    else add_scan R i qc qv (Some a1) (Some a1)))
          else Some (Inr (R, m)))"

declare add_scan.simps [code]

text \<open>
  The body of the merge loop for one entry of \<open>rhs\<close>:
  \<open>if m is None:
      result._insertnode(i, q.col, m, q.el); m = result._prow[i]
    elif m.col > q.col:
      result._insertnode(i, q.col, None, q.el); m = result._prow[i]
    elif m.col == q.col:
      if m.el + q.el == 0:
        a, b = result._findnode(i, m.col); result._removenode(a, b)
      else:
        m.el += q.el
    else:
      n = m; (the innermost loop)\<close>
\<close>

definition insert_at_head :: "matrix \<Rightarrow> int \<Rightarrow> int \<Rightarrow> int \<Rightarrow> (matrix \<times> ref) res" where
  "insert_at_head R i qc qv =
     (case insertnode R i qc None qv of
        None \<Rightarrow> None
      | Some (Inl e) \<Rightarrow> Some (Inl e)
      | Some (Inr R') \<Rightarrow>
          (case list_get (prow R') i of
             Inl e \<Rightarrow> Some (Inl e)
           | Inr m' \<Rightarrow> Some (Inr (R', m'))))"

definition add_merge_step :: "matrix \<Rightarrow> int \<Rightarrow> ref \<Rightarrow> int \<Rightarrow> int \<Rightarrow> (matrix \<times> ref) res" where
  "add_merge_step R i m qc qv =
     (case m of
        None \<Rightarrow> insert_at_head R i qc qv
      | Some b \<Rightarrow>
          if col (nodes R ! b) > qc then insert_at_head R i qc qv
          else if col (nodes R ! b) = qc then
            (if el (nodes R ! b) + qv = 0 then
               (case find_remove R i (col (nodes R ! b)) of
                  None \<Rightarrow> None
                | Some (Inl e) \<Rightarrow> Some (Inl e)
                | Some (Inr R') \<Rightarrow> Some (Inr (R', m)))
             else Some (Inr (add_el R b qv, m)))
          else add_scan R i qc qv m m)"

text \<open>
  \<open>while q is not None and q.col != self.ncols: (merge step); q = q.right\<close>, over a
  row of \<open>rhs\<close> (whose arena is \<open>h\<close>); the source has this loop twice, on
  \<open>q\<close> and on \<open>p\<close>.
\<close>

partial_function (option) add_merge_row ::
  "node list \<Rightarrow> int \<Rightarrow> int \<Rightarrow> matrix \<Rightarrow> ref \<Rightarrow> ref \<Rightarrow> (matrix \<times> ref) res" where
  "add_merge_row h nc i R m q =
     (case q of
        None \<Rightarrow> Some (Inr (R, m))
      | Some a \<Rightarrow>
          if col (h ! a) \<noteq> nc then
            (case add_merge_step R i m (col (h ! a)) (el (h ! a)) of
               None \<Rightarrow> None
             | Some (Inl e) \<Rightarrow> Some (Inl e)
             | Some (Inr (R', m')) \<Rightarrow> add_merge_row h nc i R' m' (right (h ! a)))
          else Some (Inr (R, m)))"

declare add_merge_row.simps [code]

text \<open>The second loop \<open>while i != self.nrows - 1\<close> of \<open>__add__\<close>.\<close>

partial_function (option) add_merge_rows ::
  "matrix \<Rightarrow> matrix \<Rightarrow> matrix \<Rightarrow> int \<Rightarrow> ref \<Rightarrow> ref \<Rightarrow> (matrix \<times> int \<times> ref \<times> ref) res" where
  "add_merge_rows M N R i p m =
     (if i \<noteq> nrows M - 1 then
        (case add_merge_row (nodes N) (ncols M) i R m p of
           None \<Rightarrow> None
         | Some (Inl e) \<Rightarrow> Some (Inl e)
         | Some (Inr (R1, m1)) \<Rightarrow>
             (case skip_interior (prow N) (nrows M) (i + 1) of
                None \<Rightarrow> None
              | Some (Inl e) \<Rightarrow> Some (Inl e)
              | Some (Inr i') \<Rightarrow>
                  (case list_get (prow N) i' of
                     Inl e \<Rightarrow> Some (Inl e)
                   | Inr p' \<Rightarrow>
                       (case list_get (prow R1) i' of
                          Inl e \<Rightarrow> Some (Inl e)
                        | Inr m' \<Rightarrow> add_merge_rows M N R1 i' p' m'))))
      else Some (Inr (R, i, p, m)))"

declare add_merge_rows.simps [code]

definition add_copy :: "matrix \<Rightarrow> matrix res" where
  "add_copy M =
     (case list_get (prow M) 0 of
        Inl e \<Rightarrow> Some (Inl e)
      | Inr p0 \<Rightarrow>
          (case skip_leading (prow M) 0 p0 of
             None \<Rightarrow> None
           | Some (Inl e) \<Rightarrow> Some (Inl e)
           | Some (Inr (i0, p1)) \<Rightarrow>
               (case list_get (prow (Matrix (nrows M) (ncols M))) i0 of
                  Inl e \<Rightarrow> Some (Inl e)
                | Inr m0 \<Rightarrow>
                    (case add_copy_rows M (Matrix (nrows M) (ncols M)) i0 p1 m0 of
                       None \<Rightarrow> None
                     | Some (Inl e) \<Rightarrow> Some (Inl e)
                     | Some (Inr (R, i, p, m)) \<Rightarrow> add_copy_last M i R m p))))"

definition add_merge :: "matrix \<Rightarrow> matrix \<Rightarrow> matrix \<Rightarrow> matrix res" where
  "add_merge M N R =
     (case list_get (prow N) 0 of
        Inl e \<Rightarrow> Some (Inl e)
      | Inr p0 \<Rightarrow>
          (case skip_leading (prow N) 0 p0 of
             None \<Rightarrow> None
           | Some (Inl e) \<Rightarrow> Some (Inl e)
           | Some (Inr (i0, p1)) \<Rightarrow>
               (case list_get (prow R) i0 of
                  Inl e \<Rightarrow> Some (Inl e)
                | Inr m0 \<Rightarrow>
                    (case add_merge_rows M N R i0 p1 m0 of
                       None \<Rightarrow> None
                     | Some (Inl e) \<Rightarrow> Some (Inl e)
                     | Some (Inr (R', i, p, m)) \<Rightarrow>
                         (case add_merge_row (nodes N) (ncols M) i R' m p of
                            None \<Rightarrow> None
                          | Some (Inl e) \<Rightarrow> Some (Inl e)
                          | Some (Inr (R'', m')) \<Rightarrow> Some (Inr R''))))))"

definition add :: "matrix \<Rightarrow> matrix \<Rightarrow> matrix res" where
  "add M N =
     (if nrows M \<noteq> nrows N \<or> ncols M \<noteq> ncols N then Some (Inl ValueError)
      else
        (case add_copy M of
           None \<Rightarrow> None
         | Some (Inl e) \<Rightarrow> Some (Inl e)
         | Some (Inr R) \<Rightarrow> add_merge M N R))"

subsection \<open>Sequencing\<close>

text \<open>
  Running one operation after another, as successive statements of a caller do: an
  exception, or a call that does not return, ends the sequence.
\<close>

definition and_then :: "'a res \<Rightarrow> ('a \<Rightarrow> 'b res) \<Rightarrow> 'b res" where
  "and_then x f =
     (case x of
        None \<Rightarrow> None
      | Some (Inl e) \<Rightarrow> Some (Inl e)
      | Some (Inr y) \<Rightarrow> f y)"

text \<open>A sequence of assignments \<open>M[r, c] = v\<close>, in order.\<close>

fun setitems :: "matrix \<Rightarrow> (int \<times> int \<times> int) list \<Rightarrow> matrix res" where
  "setitems M [] = Some (Inr M)"
| "setitems M ((r, c, v) # ops) = and_then (setitem M r c v) (\<lambda>M'. setitems M' ops)"

text \<open>
  The matrix \<open>m\<close> of the demonstration script after its five assignments:
  \<open>m = identity(4); m[1,1] = 7; m[2,1] = 13; m[0,3] = -2; m[3,3] = 0; m[0,0] = 0\<close>.
\<close>

definition main_m :: "matrix res" where
  "main_m =
     and_then (identity 4)
       (\<lambda>m. setitems m [(1, 1, 7), (2, 1, 13), (0, 3, - 2), (3, 3, 0), (0, 0, 0)])"

section \<open>Chains and the invariants of the data model\<close>

subsection \<open>Chains\<close>

text \<open>
  \<open>path nx p as q\<close>: following the link \<open>nx\<close> from the reference \<open>p\<close>
  visits exactly the nodes \<open>as\<close>, in this order, and arrives at \<open>q\<close>. A row
  chain follows \<open>right\<close> from \<open>_prow[r]\<close> to \<open>None\<close>, a column chain
  follows \<open>down\<close> from \<open>_pcol[c]\<close> to \<open>None\<close>.
\<close>

fun path :: "(nat \<Rightarrow> ref) \<Rightarrow> ref \<Rightarrow> nat list \<Rightarrow> ref \<Rightarrow> bool" where
  "path nx p [] q = (p = q)"
| "path nx p (a # as) q = (p = Some a \<and> path nx (nx a) as q)"

definition rnext :: "node list \<Rightarrow> nat \<Rightarrow> ref" where
  "rnext h a = right (h ! a)"

definition dnext :: "node list \<Rightarrow> nat \<Rightarrow> ref" where
  "dnext h a = down (h ! a)"

definition row_chain :: "matrix \<Rightarrow> int \<Rightarrow> nat list \<Rightarrow> bool" where
  "row_chain M r as = path (rnext (nodes M)) (prow M ! nat r) as None"

definition col_chain :: "matrix \<Rightarrow> int \<Rightarrow> nat list \<Rightarrow> bool" where
  "col_chain M c bs = path (dnext (nodes M)) (pcol M ! nat c) bs None"

text \<open>The first node of a list of nodes, and the last one (or \<open>q\<close> when there is none).\<close>

definition hd_ref :: "nat list \<Rightarrow> ref" where
  "hd_ref xs = (case xs of [] \<Rightarrow> None | a # _ \<Rightarrow> Some a)"

definition last_ref :: "ref \<Rightarrow> nat list \<Rightarrow> ref" where
  "last_ref q xs = (if xs = [] then q else Some (last xs))"

subsection \<open>The invariants, in the words of the specification\<close>

text \<open>
  I1: the chain of every row \<open>r\<close> visits entries of row \<open>r\<close> with strictly
  increasing column. I2: the chain of every column \<open>c\<close> visits entries of column
  \<open>c\<close> with strictly increasing row. (A strictly increasing chain visits no entry
  twice.)
\<close>

definition rows_increasing :: "matrix \<Rightarrow> bool" where
  "rows_increasing M \<longleftrightarrow>
     (\<forall>r. 0 \<le> r \<and> r < nrows M \<longrightarrow>
        (\<exists>as. row_chain M r as \<and> (\<forall>a\<in>set as. row (nodes M ! a) = r) \<and>
              sorted_wrt (<) (map (\<lambda>a. col (nodes M ! a)) as)))"

definition cols_increasing :: "matrix \<Rightarrow> bool" where
  "cols_increasing M \<longleftrightarrow>
     (\<forall>c. 0 \<le> c \<and> c < ncols M \<longrightarrow>
        (\<exists>bs. col_chain M c bs \<and> (\<forall>b\<in>set bs. col (nodes M ! b) = c) \<and>
              sorted_wrt (<) (map (\<lambda>b. row (nodes M ! b)) bs)))"

text \<open>
  I4: an entry is reachable from a row head exactly when it is reachable from a column
  head, and it is in the chain of one row only and of one column only.
\<close>

definition in_row :: "matrix \<Rightarrow> int \<Rightarrow> nat \<Rightarrow> bool" where
  "in_row M r a \<longleftrightarrow> 0 \<le> r \<and> r < nrows M \<and> (\<exists>as. row_chain M r as \<and> a \<in> set as)"

definition in_col :: "matrix \<Rightarrow> int \<Rightarrow> nat \<Rightarrow> bool" where
  "in_col M c a \<longleftrightarrow> 0 \<le> c \<and> c < ncols M \<and> (\<exists>bs. col_chain M c bs \<and> a \<in> set bs)"

definition chains_agree :: "matrix \<Rightarrow> bool" where
  "chains_agree M \<longleftrightarrow>
     (\<forall>a. (\<exists>r. in_row M r a) \<longleftrightarrow> (\<exists>c. in_col M c a)) \<and>
     (\<forall>a r r'. in_row M r a \<and> in_row M r' a \<longrightarrow> r = r') \<and>
     (\<forall>a c c'. in_col M c a \<and> in_col M c' a \<longrightarrow> c = c')"

subsection \<open>The invariant used in the proofs\<close>

text \<open>
  The proofs carry the set \<open>L\<close> of live nodes along: every chain of the family
  (\<open>heads\<close>, \<open>nx\<close>) lists, in strictly increasing order of \<open>key\<close>, exactly
  the live nodes whose \<open>own\<close> index is the chain's. For the rows \<open>own\<close> is
  the row and \<open>key\<close> the column of a node; for the columns it is the other way
  round.
\<close>

definition chains_ok ::
  "nat set \<Rightarrow> int \<Rightarrow> ref list \<Rightarrow> (nat \<Rightarrow> ref) \<Rightarrow> (nat \<Rightarrow> int) \<Rightarrow> (nat \<Rightarrow> int) \<Rightarrow> bool" where
  "chains_ok L k heads nx own key \<longleftrightarrow>
     (\<forall>i. 0 \<le> i \<and> i < k \<longrightarrow>
        (\<exists>as. path nx (heads ! nat i) as None \<and> set as = {a \<in> L. own a = i} \<and>
              sorted_wrt (<) (map key as)))"

definition rows_ok :: "nat set \<Rightarrow> matrix \<Rightarrow> bool" where
  "rows_ok L M =
     chains_ok L (nrows M) (prow M) (rnext (nodes M))
       (\<lambda>a. row (nodes M ! a)) (\<lambda>a. col (nodes M ! a))"

definition cols_ok :: "nat set \<Rightarrow> matrix \<Rightarrow> bool" where
  "cols_ok L M =
     chains_ok L (ncols M) (pcol M) (dnext (nodes M))
       (\<lambda>a. col (nodes M ! a)) (\<lambda>a. row (nodes M ! a))"

text \<open>
  The head lists have the declared lengths, and every live node is in the arena with its
  coordinates in range.
\<close>

definition bounds :: "nat set \<Rightarrow> matrix \<Rightarrow> bool" where
  "bounds L M \<longleftrightarrow>
     length (prow M) = nat (nrows M) \<and> length (pcol M) = nat (ncols M) \<and>
     (\<forall>a\<in>L. a < length (nodes M) \<and>
        0 \<le> row (nodes M ! a) \<and> row (nodes M ! a) < nrows M \<and>
        0 \<le> col (nodes M ! a) \<and> col (nodes M ! a) < ncols M)"

definition wf_on :: "nat set \<Rightarrow> matrix \<Rightarrow> bool" where
  "wf_on L M \<longleftrightarrow> bounds L M \<and> rows_ok L M \<and> cols_ok L M"

definition wf_matrix :: "matrix \<Rightarrow> bool" where
  "wf_matrix M \<longleftrightarrow> (\<exists>L. wf_on L M)"

text \<open>The values stored by the live nodes at a coordinate (none, or one).\<close>

definition content :: "nat set \<Rightarrow> matrix \<Rightarrow> int \<Rightarrow> int \<Rightarrow> int set" where
  "content L M r c =
     (\<lambda>a. el (nodes M ! a)) ` {a \<in> L. row (nodes M ! a) = r \<and> col (nodes M ! a) = c}"

text \<open>
  What \<open>_findnode\<close> returns as the node, given the part \<open>ys\<close> of the row chain its
  loop has not passed.
\<close>

definition found :: "node list \<Rightarrow> int \<Rightarrow> nat list \<Rightarrow> ref" where
  "found h c ys = (case ys of [] \<Rightarrow> None | a # _ \<Rightarrow> if col (h ! a) = c then Some a else None)"

text \<open>What an assignment \<open>M[r, c] = v\<close> does to a well-formed matrix.\<close>

definition set_effect :: "nat set \<Rightarrow> matrix \<Rightarrow> int \<Rightarrow> int \<Rightarrow> int \<Rightarrow> nat set \<Rightarrow> matrix \<Rightarrow> bool" where
  "set_effect L M r c v L' M' \<longleftrightarrow>
     wf_on L' M' \<and> nrows M' = nrows M \<and> ncols M' = ncols M \<and>
     (\<forall>r' c'. content L' M' r' c' =
        (if r' = r \<and> c' = c then (if v = 0 then {} else {v}) else content L M r' c'))"

section \<open>Lemmas on chains, loops and the invariant\<close>

lemma hd_ref_simps [simp]: "hd_ref [] = None" "hd_ref (a # as) = Some a"
  by (simp_all add: hd_ref_def)

lemma last_ref_simps [simp]: "last_ref q [] = q" "last_ref q (xs @ [a]) = Some a"
  by (simp_all add: last_ref_def)

lemma last_ref_Cons: "last_ref q (a # xs) = last_ref (Some a) xs"
  by (simp add: last_ref_def)

lemma path_append: "path nx p (xs @ ys) q \<longleftrightarrow> (\<exists>z. path nx p xs z \<and> path nx z ys q)"
  by (induction xs arbitrary: p) auto

lemma path_cong: "(\<And>a. a \<in> set xs \<Longrightarrow> nx' a = nx a) \<Longrightarrow> path nx' p xs q = path nx p xs q"
  by (induction xs arbitrary: p) auto

lemma path_hd: "path nx p ys None \<Longrightarrow> p = hd_ref ys"
  by (cases ys) auto

lemma path_unique: "path nx p as None \<Longrightarrow> path nx p bs None \<Longrightarrow> as = bs"
proof (induction as arbitrary: p bs)
  case Nil
  then show ?case by (cases bs) auto
next
  case (Cons a as)
  then show ?case by (cases bs) auto
qed

lemma path_split:
  "path nx p (xs @ ys) None \<Longrightarrow> path nx p xs (hd_ref ys) \<and> path nx (hd_ref ys) ys None"
  by (auto simp: path_append dest: path_hd)

lemma path_snoc: "path nx p (xs @ [b]) z \<longleftrightarrow> path nx p xs (Some b) \<and> nx b = z"
  by (auto simp: path_append)

lemma path_insert:
  assumes p: "path nx p (xs @ ys) None"
    and old: "\<And>a. a \<in> set (butlast xs) \<union> set ys \<Longrightarrow> nx' a = nx a"
    and lst: "xs \<noteq> [] \<Longrightarrow> nx' (last xs) = Some n"
    and new: "nx' n = hd_ref ys"
  shows "path nx' (if xs = [] then Some n else p) (xs @ n # ys) None"
proof (cases "xs = []")
  case True
  have "path nx' (hd_ref ys) ys None = path nx (hd_ref ys) ys None"
    by (rule path_cong) (simp add: old)
  with p True new show ?thesis by (auto dest: path_hd)
next
  case False
  then obtain xs' b where xs: "xs = xs' @ [b]" by (metis rev_exhaust)
  from p xs have 1: "path nx p xs' (Some b)" and 2: "path nx (nx b) ys None"
    by (auto simp: path_append)
  have "path nx' p xs' (Some b) = path nx p xs' (Some b)"
    by (rule path_cong) (simp add: old xs)
  moreover have "path nx' (hd_ref ys) ys None = path nx (hd_ref ys) ys None"
    by (rule path_cong) (simp add: old)
  moreover from 2 have "nx b = hd_ref ys" by (rule path_hd)
  ultimately show ?thesis using 1 2 lst new xs by (auto simp: path_append)
qed

lemma path_remove:
  assumes p: "path nx p (xs @ a # ys) None"
    and old: "\<And>b. b \<in> set (butlast xs) \<union> set ys \<Longrightarrow> nx' b = nx b"
    and lst: "xs \<noteq> [] \<Longrightarrow> nx' (last xs) = nx a"
  shows "path nx' (if xs = [] then nx a else p) (xs @ ys) None"
proof (cases "xs = []")
  case True
  have "path nx' (nx a) ys None = path nx (nx a) ys None"
    by (rule path_cong) (simp add: old)
  with p True show ?thesis by auto
next
  case False
  then obtain xs' b where xs: "xs = xs' @ [b]" by (metis rev_exhaust)
  from p xs have 1: "path nx p xs' (Some b)" and 2: "path nx (nx a) ys None"
    by (auto simp: path_append)
  have "path nx' p xs' (Some b) = path nx p xs' (Some b)"
    by (rule path_cong) (simp add: old xs)
  moreover have "path nx' (nx a) ys None = path nx (nx a) ys None"
    by (rule path_cong) (simp add: old)
  ultimately show ?thesis using 1 2 lst xs by (auto simp: path_append)
qed

lemma findnode_loop_path:
  "path (rnext h) p as None \<Longrightarrow>
   findnode_loop h c p q =
     Some (hd_ref (dropWhile (\<lambda>a. col (h ! a) < c) as),
           last_ref q (takeWhile (\<lambda>a. col (h ! a) < c) as))"
proof (induction as arbitrary: p q)
  case Nil
  then show ?case by (subst findnode_loop.simps) simp
next
  case (Cons a as)
  then show ?case
    by (subst findnode_loop.simps) (auto simp: rnext_def last_ref_Cons)
qed

lemma insertnode_loop_path:
  "path (dnext h) p as None \<Longrightarrow>
   insertnode_loop h r p m =
     Some (hd_ref (dropWhile (\<lambda>a. row (h ! a) < r) as),
           last_ref m (takeWhile (\<lambda>a. row (h ! a) < r) as))"
proof (induction as arbitrary: p m)
  case Nil
  then show ?case by (subst insertnode_loop.simps) simp
next
  case (Cons a as)
  then show ?case
    by (subst insertnode_loop.simps) (auto simp: dnext_def last_ref_Cons)
qed

lemma removenode_loop_path:
  "path (dnext h) p (as @ a # bs) None \<Longrightarrow> row (h ! a) = r \<Longrightarrow>
   (\<And>b. b \<in> set as \<Longrightarrow> row (h ! b) \<noteq> r) \<Longrightarrow>
   removenode_loop h r p m = Some (Inr (last_ref m as))"
proof (induction as arbitrary: p m)
  case Nil
  then show ?case by (subst removenode_loop.simps) simp
next
  case (Cons b as)
  then show ?case
    by (subst removenode_loop.simps) (auto simp: dnext_def last_ref_Cons)
qed

lemma sorted_dropWhile_ge:
  "sorted_wrt (<) (map f as) \<Longrightarrow> a \<in> set (dropWhile (\<lambda>a. f a < c) as) \<Longrightarrow> (c::int) \<le> f a"
  by (induction as) (auto split: if_splits)

lemma takeWhile_lt: "a \<in> set (takeWhile (\<lambda>a. f a < c) as) \<Longrightarrow> f a < (c::int)"
  by (auto dest: set_takeWhileD)

lemma list_get_in [simp]: "0 \<le> i \<Longrightarrow> i < int (length xs) \<Longrightarrow> list_get xs i = Inr (xs ! nat i)"
  by (simp add: list_get_def)

lemma list_set_in [simp]: "0 \<le> i \<Longrightarrow> i < int (length xs) \<Longrightarrow> list_set xs i v = Inr (xs[nat i := v])"
  by (simp add: list_set_def)

lemma chains_okD:
  "chains_ok L k heads nx own key \<Longrightarrow> 0 \<le> i \<Longrightarrow> i < k \<Longrightarrow>
   \<exists>as. path nx (heads ! nat i) as None \<and> set as = {a \<in> L. own a = i} \<and>
        sorted_wrt (<) (map key as)"
  by (simp add: chains_ok_def)

lemma sorted_key_distinct: "sorted_wrt (<) (map (key :: nat \<Rightarrow> int) as) \<Longrightarrow> distinct as"
  by (metis distinct_map strict_sorted_iff)

lemma sorted_key_inj:
  "sorted_wrt (<) (map (key :: nat \<Rightarrow> int) as) \<Longrightarrow> a \<in> set as \<Longrightarrow> b \<in> set as \<Longrightarrow>
   key a = key b \<Longrightarrow> a = b"
  by (metis distinct_map inj_onD strict_sorted_iff)

lemma chains_cong:
  assumes ok: "chains_ok L k heads nx own key"
    and hd: "\<And>i. 0 \<le> i \<Longrightarrow> i < k \<Longrightarrow> heads' ! nat i = heads ! nat i"
    and same: "\<And>a. a \<in> L \<Longrightarrow> nx' a = nx a \<and> own' a = own a \<and> key' a = key a"
  shows "chains_ok L k heads' nx' own' key'"
  unfolding chains_ok_def
proof (intro allI impI)
  fix i assume i: "0 \<le> i \<and> i < k"
  with ok obtain as where as: "path nx (heads ! nat i) as None" "set as = {a \<in> L. own a = i}"
    "sorted_wrt (<) (map key as)"
    by (auto dest: chains_okD)
  have sub: "\<And>a. a \<in> set as \<Longrightarrow> a \<in> L" using as(2) by auto
  have 1: "path nx' (heads ! nat i) as None = path nx (heads ! nat i) as None"
    by (rule path_cong) (simp add: same sub)
  have 2: "map key' as = map key as"
    by (rule map_cong) (simp_all add: same sub)
  have 3: "{a \<in> L. own' a = i} = {a \<in> L. own a = i}"
    using same by auto
  have 4: "heads' ! nat i = heads ! nat i" using hd i by simp
  show "\<exists>as. path nx' (heads' ! nat i) as None \<and> set as = {a \<in> L. own' a = i} \<and>
      sorted_wrt (<) (map key' as)"
    by (rule exI [of _ as]) (simp only: 1 2 3 4 as simp_thms)
qed

lemma chains_insert:
  assumes ok: "chains_ok L k heads nx own key"
    and i: "0 \<le> i" "i < k" "nat i < length heads"
    and chain: "path nx (heads ! nat i) (xs @ ys) None"
    and lt: "\<And>a. a \<in> set xs \<Longrightarrow> key a < x"
    and gt: "\<And>a. a \<in> set ys \<Longrightarrow> x < key a"
    and fresh: "n \<notin> L"
    and new: "own' n = i" "key' n = x" "nx' n = hd_ref ys"
    and old: "\<And>a. a \<in> L \<Longrightarrow> own' a = own a \<and> key' a = key a"
    and nxold: "\<And>a. a \<in> L \<Longrightarrow> xs = [] \<or> a \<noteq> last xs \<Longrightarrow> nx' a = nx a"
    and lst: "xs \<noteq> [] \<Longrightarrow> nx' (last xs) = Some n"
    and hds: "heads' = (if xs = [] then heads[nat i := Some n] else heads)"
  shows "chains_ok (insert n L) k heads' nx' own' key'"
  unfolding chains_ok_def
proof (intro allI impI)
  fix j assume j: "0 \<le> j \<and> j < k"
  from ok i obtain as where as: "path nx (heads ! nat i) as None" "set as = {a \<in> L. own a = i}"
    "sorted_wrt (<) (map key as)"
    by (auto dest: chains_okD)
  with chain have aseq: "as = xs @ ys" by (auto dest: path_unique)
  have "distinct as" using as(3) by (rule sorted_key_distinct)
  then have dist: "distinct (xs @ ys)" using aseq by simp
  have subL: "\<And>a. a \<in> set xs \<union> set ys \<Longrightarrow> a \<in> L \<and> own a = i" using as(2) aseq by auto
  show "\<exists>as. path nx' (heads' ! nat j) as None \<and> set as = {a \<in> insert n L. own' a = j} \<and>
      sorted_wrt (<) (map key' as)"
  proof (cases "j = i")
    case True
    have notlast: "\<And>a. a \<in> set (butlast xs) \<union> set ys \<Longrightarrow> xs = [] \<or> a \<noteq> last xs"
    proof -
      fix a assume a: "a \<in> set (butlast xs) \<union> set ys"
      show "xs = [] \<or> a \<noteq> last xs"
      proof (cases "xs = []")
        case False
        then obtain xs' b where xs: "xs = xs' @ [b]" by (metis rev_exhaust)
        with a dist show ?thesis by auto
      qed simp
    qed
    have P1: "path nx' (if xs = [] then Some n else heads ! nat i) (xs @ n # ys) None"
    proof (rule path_insert [OF chain])
      fix a assume a: "a \<in> set (butlast xs) \<union> set ys"
      then have "a \<in> L" using subL by (auto dest: in_set_butlastD)
      then show "nx' a = nx a" using notlast [OF a] by (rule nxold)
    qed (use lst new in auto)
    have P2: "heads' ! nat i = (if xs = [] then Some n else heads ! nat i)"
      using hds i by simp
    have P3: "set (xs @ n # ys) = {a \<in> insert n L. own' a = i}"
      using as(2) aseq new(1) old by auto
    have P4: "sorted_wrt (<) (map key' (xs @ n # ys))"
    proof -
      have kx: "map key' xs = map key xs" and ky: "map key' ys = map key ys"
        using subL old by (auto intro!: map_cong)
      have "sorted_wrt (<) (map key xs @ x # map key ys)"
        using as(3) aseq lt gt by (auto simp: sorted_wrt_append)
      then show ?thesis by (simp add: kx ky new)
    qed
    from P1 P2 have "path nx' (heads' ! nat j) (xs @ n # ys) None" using True by simp
    with P3 P4 True show ?thesis by blast
  next
    case False
    from ok j obtain bs where bs: "path nx (heads ! nat j) bs None"
      "set bs = {a \<in> L. own a = j}" "sorted_wrt (<) (map key bs)"
      by (auto dest: chains_okD)
    have sub: "\<And>a. a \<in> set bs \<Longrightarrow> a \<in> L \<and> own a = j" using bs(2) by auto
    have Q1: "path nx' (heads ! nat j) bs None = path nx (heads ! nat j) bs None"
    proof (rule path_cong)
      fix a assume a: "a \<in> set bs"
      have "xs = [] \<or> a \<noteq> last xs"
      proof (cases "xs = []")
        case F: False
        then have "last xs \<in> set xs" by simp
        then have "own (last xs) = i" using subL by auto
        with sub [OF a] False show ?thesis by auto
      qed simp
      with sub [OF a] show "nx' a = nx a" by (auto intro: nxold)
    qed
    have Q2: "heads' ! nat j = heads ! nat j"
      using hds False i j by (auto simp: nat_eq_iff)
    have Q3: "map key' bs = map key bs"
      using sub old by (auto intro!: map_cong)
    have Q4: "{a \<in> insert n L. own' a = j} = {a \<in> L. own a = j}"
      using new(1) False old by auto
    show ?thesis by (rule exI [of _ bs]) (simp only: Q1 Q2 Q3 Q4 bs simp_thms)
  qed
qed

lemma chains_remove:
  assumes ok: "chains_ok L k heads nx own key"
    and i: "0 \<le> i" "i < k" "nat i < length heads"
    and chain: "path nx (heads ! nat i) (xs @ a # ys) None"
    and old: "\<And>b. b \<in> L \<Longrightarrow> own' b = own b \<and> key' b = key b"
    and nxold: "\<And>b. b \<in> L \<Longrightarrow> b \<noteq> a \<Longrightarrow> xs = [] \<or> b \<noteq> last xs \<Longrightarrow> nx' b = nx b"
    and lst: "xs \<noteq> [] \<Longrightarrow> nx' (last xs) = nx a"
    and hds: "heads' = (if xs = [] then heads[nat i := nx a] else heads)"
  shows "chains_ok (L - {a}) k heads' nx' own' key'"
  unfolding chains_ok_def
proof (intro allI impI)
  fix j assume j: "0 \<le> j \<and> j < k"
  from ok i obtain as where as: "path nx (heads ! nat i) as None" "set as = {a \<in> L. own a = i}"
    "sorted_wrt (<) (map key as)"
    by (auto dest: chains_okD)
  with chain have aseq: "as = xs @ a # ys" by (auto dest: path_unique)
  have "distinct as" using as(3) by (rule sorted_key_distinct)
  then have dist: "distinct (xs @ a # ys)" using aseq by simp
  have subL: "\<And>b. b \<in> set xs \<union> set ys \<Longrightarrow> b \<in> L \<and> own b = i \<and> b \<noteq> a"
    using as(2) aseq dist by auto
  have a: "a \<in> L" "own a = i" using as(2) aseq by auto
  show "\<exists>as. path nx' (heads' ! nat j) as None \<and> set as = {b \<in> L - {a}. own' b = j} \<and>
      sorted_wrt (<) (map key' as)"
  proof (cases "j = i")
    case True
    have notlast: "\<And>b. b \<in> set (butlast xs) \<union> set ys \<Longrightarrow> xs = [] \<or> b \<noteq> last xs"
    proof -
      fix b assume b: "b \<in> set (butlast xs) \<union> set ys"
      show "xs = [] \<or> b \<noteq> last xs"
      proof (cases "xs = []")
        case False
        then obtain xs' c where xs: "xs = xs' @ [c]" by (metis rev_exhaust)
        with b dist show ?thesis by auto
      qed simp
    qed
    have P1: "path nx' (if xs = [] then nx a else heads ! nat i) (xs @ ys) None"
    proof (rule path_remove [OF chain])
      fix b assume b: "b \<in> set (butlast xs) \<union> set ys"
      then have "b \<in> L \<and> b \<noteq> a" using subL by (auto dest: in_set_butlastD)
      then show "nx' b = nx b" using notlast [OF b] by (auto intro: nxold)
    qed (use lst in auto)
    have P2: "heads' ! nat i = (if xs = [] then nx a else heads ! nat i)"
      using hds i by simp
    have P3: "set (xs @ ys) = {b \<in> L - {a}. own' b = i}"
    proof -
      have "set (xs @ ys) = {b \<in> L. own b = i} - {a}"
        using as(2) aseq dist by auto
      moreover have "{b \<in> L - {a}. own' b = i} = {b \<in> L. own b = i} - {a}"
        using old by auto
      ultimately show ?thesis by simp
    qed
    have P4: "sorted_wrt (<) (map key' (xs @ ys))"
    proof -
      have kx: "map key' xs = map key xs" and ky: "map key' ys = map key ys"
        using subL old by (auto intro!: map_cong)
      have "sorted_wrt (<) (map key xs @ map key ys)"
        using as(3) aseq by (auto simp: sorted_wrt_append)
      then show ?thesis by (simp add: kx ky)
    qed
    from P1 P2 have "path nx' (heads' ! nat j) (xs @ ys) None" using True by simp
    with P3 P4 True show ?thesis by blast
  next
    case False
    from ok j obtain bs where bs: "path nx (heads ! nat j) bs None"
      "set bs = {a \<in> L. own a = j}" "sorted_wrt (<) (map key bs)"
      by (auto dest: chains_okD)
    have sub: "\<And>b. b \<in> set bs \<Longrightarrow> b \<in> L \<and> own b = j" using bs(2) by auto
    have Q1: "path nx' (heads ! nat j) bs None = path nx (heads ! nat j) bs None"
    proof (rule path_cong)
      fix b assume b: "b \<in> set bs"
      have "xs = [] \<or> b \<noteq> last xs"
      proof (cases "xs = []")
        case F: False
        then have "last xs \<in> set xs" by simp
        then have "own (last xs) = i" using subL by auto
        with sub [OF b] False show ?thesis by auto
      qed simp
      moreover have "b \<noteq> a" using sub [OF b] a False by auto
      ultimately show "nx' b = nx b" using sub [OF b] by (auto intro: nxold)
    qed
    have Q2: "heads' ! nat j = heads ! nat j"
      using hds False i j by (auto simp: nat_eq_iff)
    have Q3: "map key' bs = map key bs"
      using sub old by (auto intro!: map_cong)
    have Q4: "{b \<in> L - {a}. own' b = j} = {a \<in> L. own a = j}"
      using a False old by auto
    show ?thesis by (rule exI [of _ bs]) (simp only: Q1 Q2 Q3 Q4 bs simp_thms)
  qed
qed

lemma length_set_right [simp]: "length (set_right h a x) = length h"
  by (simp add: set_right_def)

lemma length_set_down [simp]: "length (set_down h a x) = length h"
  by (simp add: set_down_def)

lemma length_set_el [simp]: "length (set_el h a x) = length h"
  by (simp add: set_el_def)

lemma set_right_fields [simp]:
  "row (set_right h a x ! b) = row (h ! b)"
  "col (set_right h a x ! b) = col (h ! b)"
  "el (set_right h a x ! b) = el (h ! b)"
  "down (set_right h a x ! b) = down (h ! b)"
  by (cases "b = a"; cases "a < length h"; simp add: set_right_def list_update_beyond)+

lemma set_down_fields [simp]:
  "row (set_down h a x ! b) = row (h ! b)"
  "col (set_down h a x ! b) = col (h ! b)"
  "el (set_down h a x ! b) = el (h ! b)"
  "right (set_down h a x ! b) = right (h ! b)"
  by (cases "b = a"; cases "a < length h"; simp add: set_down_def list_update_beyond)+

lemma set_el_fields [simp]:
  "row (set_el h a x ! b) = row (h ! b)"
  "col (set_el h a x ! b) = col (h ! b)"
  "right (set_el h a x ! b) = right (h ! b)"
  "down (set_el h a x ! b) = down (h ! b)"
  by (cases "b = a"; cases "a < length h"; simp add: set_el_def list_update_beyond)+

lemma set_right_right:
  "right (set_right h a x ! b) = (if b = a \<and> a < length h then x else right (h ! b))"
  by (cases "b = a"; cases "a < length h"; simp add: set_right_def list_update_beyond)

lemma set_down_down:
  "down (set_down h a x ! b) = (if b = a \<and> a < length h then x else down (h ! b))"
  by (cases "b = a"; cases "a < length h"; simp add: set_down_def list_update_beyond)

lemma set_el_el:
  "el (set_el h a x ! b) = (if b = a \<and> a < length h then x else el (h ! b))"
  by (cases "b = a"; cases "a < length h"; simp add: set_el_def list_update_beyond)

lemma rnext_simps [simp]:
  "rnext (set_down h a x) = rnext h"
  "rnext (set_el h a v) = rnext h"
  "dnext (set_right h a x) = dnext h"
  "dnext (set_el h a v) = dnext h"
  by (simp_all add: rnext_def dnext_def fun_eq_iff)

lemma rnext_set_right:
  "rnext (set_right h a x) b = (if b = a \<and> a < length h then x else rnext h b)"
  by (simp add: rnext_def set_right_right)

lemma dnext_set_down:
  "dnext (set_down h a x) b = (if b = a \<and> a < length h then x else dnext h b)"
  by (simp add: dnext_def set_down_down)

lemma set_down_None_id: "down (h ! a) = None \<Longrightarrow> set_down h a None = h"
proof -
  assume "down (h ! a) = None"
  then have "(h ! a)\<lparr>down := None\<rparr> = h ! a" by (cases "h ! a") simp
  then show ?thesis by (simp add: set_down_def)
qed

lemma content_insert:
  "content (insert n L) M r c =
     (if row (nodes M ! n) = r \<and> col (nodes M ! n) = c then {el (nodes M ! n)} else {}) \<union>
     content L M r c"
proof -
  have "{a \<in> insert n L. row (nodes M ! a) = r \<and> col (nodes M ! a) = c} =
     (if row (nodes M ! n) = r \<and> col (nodes M ! n) = c then {n} else {}) \<union>
     {a \<in> L. row (nodes M ! a) = r \<and> col (nodes M ! a) = c}"
    by auto
  then show ?thesis unfolding content_def by (simp add: image_Un)
qed

lemma content_remove:
  assumes "row (nodes M ! a) \<noteq> r \<or> col (nodes M ! a) \<noteq> c"
  shows "content (L - {a}) M r c = content L M r c"
proof -
  have "{b \<in> L - {a}. row (nodes M ! b) = r \<and> col (nodes M ! b) = c} =
        {b \<in> L. row (nodes M ! b) = r \<and> col (nodes M ! b) = c}"
    using assms by auto
  then show ?thesis unfolding content_def by simp
qed

lemma content_cong:
  assumes "\<And>a. a \<in> L \<Longrightarrow> row (nodes M' ! a) = row (nodes M ! a) \<and> col (nodes M' ! a) = col (nodes M ! a) \<and>
      el (nodes M' ! a) = el (nodes M ! a)"
  shows "content L M' r c = content L M r c"
proof -
  have 1: "{a \<in> L. row (nodes M' ! a) = r \<and> col (nodes M' ! a) = c} =
        {a \<in> L. row (nodes M ! a) = r \<and> col (nodes M ! a) = c}"
    using assms by auto
  show ?thesis unfolding content_def 1
    by (rule image_cong [OF refl]) (simp add: assms)
qed

lemma content_empty:
  assumes "\<And>a. a \<in> L \<Longrightarrow> row (nodes M ! a) = r \<Longrightarrow> col (nodes M ! a) \<noteq> c"
  shows "content L M r c = {}"
  unfolding content_def using assms by auto

lemma content_single:
  assumes "a \<in> L" "row (nodes M ! a) = r" "col (nodes M ! a) = c"
    and "\<And>b. b \<in> L \<Longrightarrow> row (nodes M ! b) = r \<Longrightarrow> col (nodes M ! b) = c \<Longrightarrow> b = a"
  shows "content L M r c = {el (nodes M ! a)}"
proof -
  have "{b \<in> L. row (nodes M ! b) = r \<and> col (nodes M ! b) = c} = {a}"
  proof (intro equalityI subsetI)
    fix b assume "b \<in> {b \<in> L. row (nodes M ! b) = r \<and> col (nodes M ! b) = c}"
    then have "b = a" using assms(4) [of b] by simp
    then show "b \<in> {a}" by simp
  next
    fix b assume "b \<in> {a}"
    then show "b \<in> {b \<in> L. row (nodes M ! b) = r \<and> col (nodes M ! b) = c}"
      using assms(1-3) by simp
  qed
  then show ?thesis unfolding content_def by simp
qed

lemma wf_on_Matrix: "wf_on {} (Matrix nr nc)"
  by (auto simp: wf_on_def bounds_def rows_ok_def cols_ok_def chains_ok_def Matrix_def
      intro!: exI [of _ "[]"])

lemma row_chainE:
  assumes "wf_on L M" "0 \<le> r" "r < nrows M"
  obtains as where "path (rnext (nodes M)) (prow M ! nat r) as None"
    "set as = {a \<in> L. row (nodes M ! a) = r}"
    "sorted_wrt (<) (map (\<lambda>a. col (nodes M ! a)) as)"
proof -
  from assms have "chains_ok L (nrows M) (prow M) (rnext (nodes M))
       (\<lambda>a. row (nodes M ! a)) (\<lambda>a. col (nodes M ! a))"
    by (simp add: wf_on_def rows_ok_def)
  from chains_okD [OF this assms(2,3)] that show ?thesis by (elim exE conjE)
qed

lemma col_chainE:
  assumes "wf_on L M" "0 \<le> c" "c < ncols M"
  obtains bs where "path (dnext (nodes M)) (pcol M ! nat c) bs None"
    "set bs = {a \<in> L. col (nodes M ! a) = c}"
    "sorted_wrt (<) (map (\<lambda>a. row (nodes M ! a)) bs)"
proof -
  from assms have "chains_ok L (ncols M) (pcol M) (dnext (nodes M))
       (\<lambda>a. col (nodes M ! a)) (\<lambda>a. row (nodes M ! a))"
    by (simp add: wf_on_def cols_ok_def)
  from chains_okD [OF this assms(2,3)] that show ?thesis by (elim exE conjE)
qed

lemma wf_on_unique:
  assumes wf: "wf_on L M" and a: "a \<in> L" and b: "b \<in> L"
    and r: "row (nodes M ! a) = row (nodes M ! b)" and c: "col (nodes M ! a) = col (nodes M ! b)"
  shows "a = b"
proof -
  from wf a have rng: "0 \<le> row (nodes M ! a)" "row (nodes M ! a) < nrows M"
    by (auto simp: wf_on_def bounds_def)
  obtain as where as0: "path (rnext (nodes M)) (prow M ! nat (row (nodes M ! a))) as None"
    and as: "set as = {x \<in> L. row (nodes M ! x) = row (nodes M ! a)}"
    "sorted_wrt (<) (map (\<lambda>a. col (nodes M ! a)) as)"
    by (rule row_chainE [OF wf rng])
  have "a \<in> set as" "b \<in> set as" using as(1) a b r by auto
  with sorted_key_inj [OF as(2), of a b] c show ?thesis by simp
qed

lemma findnode_wf:
  assumes wf: "wf_on L M" and r: "0 \<le> r" "r < nrows M"
  obtains xs ys where
    "path (rnext (nodes M)) (prow M ! nat r) (xs @ ys) None"
    "set (xs @ ys) = {a \<in> L. row (nodes M ! a) = r}"
    "sorted_wrt (<) (map (\<lambda>a. col (nodes M ! a)) (xs @ ys))"
    "\<forall>a\<in>set xs. col (nodes M ! a) < c"
    "\<forall>a\<in>set ys. c \<le> col (nodes M ! a)"
    "findnode M r c = Some (Inr (found (nodes M) c ys, last_ref None xs))"
proof -
  obtain as where as:
    "path (rnext (nodes M)) (prow M ! nat r) as None"
    "set as = {a \<in> L. row (nodes M ! a) = r}"
    "sorted_wrt (<) (map (\<lambda>a. col (nodes M ! a)) as)"
    by (rule row_chainE [OF wf r])
  define xs where "xs = takeWhile (\<lambda>a. col (nodes M ! a) < c) as"
  define ys where "ys = dropWhile (\<lambda>a. col (nodes M ! a) < c) as"
  have s: "as = xs @ ys" by (simp add: xs_def ys_def)
  have lt: "\<forall>a\<in>set xs. col (nodes M ! a) < c"
    unfolding xs_def by (auto dest: takeWhile_lt)
  have ge: "\<forall>a\<in>set ys. c \<le> col (nodes M ! a)"
    unfolding ys_def using as(3) by (auto dest: sorted_dropWhile_ge)
  have len: "length (prow M) = nat (nrows M)" using wf by (simp add: wf_on_def bounds_def)
  have "findnode_loop (nodes M) c (prow M ! nat r) None = Some (hd_ref ys, last_ref None xs)"
    using findnode_loop_path [OF as(1), of c None] by (simp add: xs_def ys_def)
  then have "findnode M r c = Some (Inr (found (nodes M) c ys, last_ref None xs))"
    using r len by (cases ys) (auto simp: findnode_def found_def)
  with as lt ge show ?thesis unfolding s by (rule that)
qed

lemma path_last_next:
  "path nx p (xs @ ys) None \<Longrightarrow> xs \<noteq> [] \<Longrightarrow> nx (last xs) = hd_ref ys"
proof -
  assume p: "path nx p (xs @ ys) None" and "xs \<noteq> []"
  then obtain xs' b where xs: "xs = xs' @ [b]" by (metis rev_exhaust)
  with p have "path nx (nx b) ys None" by (auto simp: path_append)
  then show ?thesis using xs by (auto dest: path_hd)
qed

lemma insert_row_wf:
  assumes wf: "wf_on L M" and r: "0 \<le> r" "r < nrows M"
    and chain: "path (rnext (nodes M)) (prow M ! nat r) (xs @ ys) None"
    and lt: "\<forall>a\<in>set xs. col (nodes M ! a) < c"
    and gt: "\<forall>a\<in>set ys. c < col (nodes M ! a)"
    and n: "n = length (nodes M)"
    and M0: "M0 = M\<lparr>nodes := nodes M @ [\<lparr>row = r, col = c, el = v, right = None, down = None\<rparr>]\<rparr>"
  shows "\<exists>M1. insert_row M0 r (last_ref None xs) n = Inr M1 \<and>
     rows_ok (insert n L) M1 \<and> cols_ok L M1 \<and> pcol M1 = pcol M \<and>
     nrows M1 = nrows M \<and> ncols M1 = ncols M \<and> length (prow M1) = length (prow M) \<and>
     length (nodes M1) = Suc n \<and>
     (\<forall>a<n. row (nodes M1 ! a) = row (nodes M ! a) \<and> col (nodes M1 ! a) = col (nodes M ! a) \<and>
            el (nodes M1 ! a) = el (nodes M ! a)) \<and>
     row (nodes M1 ! n) = r \<and> col (nodes M1 ! n) = c \<and> el (nodes M1 ! n) = v \<and>
     down (nodes M1 ! n) = None"
proof -
  define h where "h = nodes M"
  define h0 where "h0 = h @ [\<lparr>row = r, col = c, el = v, right = None, down = None\<rparr>]"
  define M1 where "M1 =
    (if xs = [] then M0\<lparr>prow := (prow M)[nat r := Some n], nodes := set_right h0 n (prow M ! nat r)\<rparr>
     else M0\<lparr>nodes := set_right (set_right h0 n (right (h0 ! last xs))) (last xs) (Some n)\<rparr>)"
  have len: "length (prow M) = nat (nrows M)" and Lb: "\<And>a. a \<in> L \<Longrightarrow> a < n"
    using wf n by (auto simp: wf_on_def bounds_def)
  have rows: "rows_ok L M" and cols: "cols_ok L M" using wf by (auto simp: wf_on_def)
  have h0_old: "\<And>a. a < n \<Longrightarrow> h0 ! a = h ! a" and h0_n: "h0 ! n = \<lparr>row = r, col = c, el = v, right = None, down = None\<rparr>"
    and h0_len: "length h0 = Suc n"
    using n by (auto simp: h0_def h_def nth_append)
  have nM0: "nodes M0 = h0" "prow M0 = prow M" by (simp_all add: M0 h0_def h_def)
  obtain as where as: "path (rnext (nodes M)) (prow M ! nat r) as None"
    "set as = {a \<in> L. row (nodes M ! a) = r}"
    "sorted_wrt (<) (map (\<lambda>a. col (nodes M ! a)) as)"
    by (rule row_chainE [OF wf r])
  with chain have aseq: "as = xs @ ys" by (auto dest: path_unique)
  have xsL: "\<And>a. a \<in> set xs \<Longrightarrow> a \<in> L" using as(2) aseq by auto
  have lastL: "xs \<noteq> [] \<Longrightarrow> last xs < n" using xsL Lb by auto
  have ir: "insert_row M0 r (last_ref None xs) n = Inr M1"
    using r len by (auto simp: insert_row_def last_ref_def M1_def nM0)
  have nodes1: "nodes M1 =
    (if xs = [] then set_right h0 n (prow M ! nat r)
     else set_right (set_right h0 n (right (h0 ! last xs))) (last xs) (Some n))"
    by (simp add: M1_def)
  have f_old: "\<And>a. a < n \<Longrightarrow> row (nodes M1 ! a) = row (h ! a) \<and> col (nodes M1 ! a) = col (h ! a) \<and>
      el (nodes M1 ! a) = el (h ! a) \<and> down (nodes M1 ! a) = down (h ! a)"
    by (simp add: nodes1 h0_old)
  have f_new: "row (nodes M1 ! n) = r" "col (nodes M1 ! n) = c" "el (nodes M1 ! n) = v"
    "down (nodes M1 ! n) = None"
    by (simp_all add: nodes1 h0_n)
  have len1: "length (nodes M1) = Suc n" by (simp add: nodes1 h0_len)
  have dims1: "nrows M1 = nrows M" "ncols M1 = ncols M" "pcol M1 = pcol M"
    "length (prow M1) = length (prow M)"
    by (simp_all add: M1_def M0)
  have rn_old: "rnext (nodes M1) a = rnext h a" if "a \<in> L" "xs = [] \<or> a \<noteq> last xs" for a
  proof -
    from that Lb have "a < n" by simp
    with that(2) show ?thesis
      by (auto simp: nodes1 rnext_def set_right_right h0_len h0_old)
  qed
  have rn_last: "xs \<noteq> [] \<Longrightarrow> rnext (nodes M1) (last xs) = Some n"
    using lastL by (auto simp: nodes1 rnext_def set_right_right h0_len)
  have rn_new: "rnext (nodes M1) n = hd_ref ys"
  proof (cases "xs = []")
    case True
    with chain have "prow M ! nat r = hd_ref ys" by (auto dest: path_hd)
    then show ?thesis using True by (simp add: nodes1 rnext_def set_right_right h0_len)
  next
    case False
    from path_last_next [OF chain False] have "right (h ! last xs) = hd_ref ys"
      by (simp add: rnext_def h_def)
    then show ?thesis using False lastL
      by (auto simp: nodes1 rnext_def set_right_right h0_len h0_old)
  qed
  have "chains_ok (insert n L) (nrows M) (prow M1) (rnext (nodes M1))
       (\<lambda>a. row (nodes M1 ! a)) (\<lambda>a. col (nodes M1 ! a))"
  proof (rule chains_insert [where xs = xs and ys = ys and x = c and i = r])
    show "chains_ok L (nrows M) (prow M) (rnext (nodes M)) (\<lambda>a. row (nodes M ! a)) (\<lambda>a. col (nodes M ! a))"
      using rows by (simp add: rows_ok_def)
    show "nat r < length (prow M)" using r len by auto
    show "n \<notin> L" using Lb by auto
    show "prow M1 = (if xs = [] then (prow M)[nat r := Some n] else prow M)"
      by (simp add: M1_def nM0)
    show "rnext (nodes M1) n = hd_ref ys" by (rule rn_new)
  qed (use r chain lt gt f_new f_old Lb rn_old rn_last in \<open>auto simp: h_def\<close>)
  then have rows1: "rows_ok (insert n L) M1" by (simp add: rows_ok_def dims1)
  have "chains_ok L (ncols M) (pcol M) (dnext (nodes M1))
       (\<lambda>a. col (nodes M1 ! a)) (\<lambda>a. row (nodes M1 ! a))"
  proof (rule chains_cong)
    show "chains_ok L (ncols M) (pcol M) (dnext (nodes M)) (\<lambda>a. col (nodes M ! a)) (\<lambda>a. row (nodes M ! a))"
      using cols by (simp add: cols_ok_def)
  qed (use f_old Lb in \<open>auto simp: dnext_def h_def\<close>)
  then have cols1: "cols_ok L M1" by (simp add: cols_ok_def dims1)
  show ?thesis
    using ir rows1 cols1 f_old f_new len1 dims1 by (auto simp: h_def)
qed

lemma insert_col_wf:
  assumes cols: "cols_ok L M1" and rows: "rows_ok (insert n L) M1"
    and lenc: "length (pcol M1) = nat (ncols M1)" and c: "0 \<le> c" "c < ncols M1"
    and Lb: "\<And>a. a \<in> L \<Longrightarrow> a < n" and n: "n < length (nodes M1)"
    and new: "row (nodes M1 ! n) = r" "col (nodes M1 ! n) = c" "down (nodes M1 ! n) = None"
    and absent: "\<And>a. a \<in> L \<Longrightarrow> row (nodes M1 ! a) = r \<Longrightarrow> col (nodes M1 ! a) \<noteq> c"
  shows "\<exists>p m M2. insertnode_loop (nodes M1) r (pcol M1 ! nat c) None = Some (p, m) \<and>
     insert_col M1 r c p m n = Inr M2 \<and>
     cols_ok (insert n L) M2 \<and> rows_ok (insert n L) M2 \<and> prow M2 = prow M1 \<and>
     length (pcol M2) = length (pcol M1) \<and> nrows M2 = nrows M1 \<and> ncols M2 = ncols M1 \<and>
     length (nodes M2) = length (nodes M1) \<and>
     (\<forall>a. row (nodes M2 ! a) = row (nodes M1 ! a) \<and> col (nodes M2 ! a) = col (nodes M1 ! a) \<and>
          el (nodes M2 ! a) = el (nodes M1 ! a))"
proof -
  define h1 where "h1 = nodes M1"
  from cols have ck: "chains_ok L (ncols M1) (pcol M1) (dnext h1)
      (\<lambda>a. col (h1 ! a)) (\<lambda>a. row (h1 ! a))"
    by (simp add: cols_ok_def h1_def)
  from chains_okD [OF ck c] obtain bs where bs:
    "path (dnext h1) (pcol M1 ! nat c) bs None" "set bs = {a \<in> L. col (h1 ! a) = c}"
    "sorted_wrt (<) (map (\<lambda>a. row (h1 ! a)) bs)"
    by (elim exE conjE)
  define us where "us = takeWhile (\<lambda>a. row (h1 ! a) < r) bs"
  define vs where "vs = dropWhile (\<lambda>a. row (h1 ! a) < r) bs"
  have bseq: "bs = us @ vs" by (simp add: us_def vs_def)
  have lt: "\<And>a. a \<in> set us \<Longrightarrow> row (h1 ! a) < r"
    unfolding us_def by (rule takeWhile_lt)
  have ge: "\<And>a. a \<in> set vs \<Longrightarrow> r \<le> row (h1 ! a)"
    unfolding vs_def using bs(3) by (rule sorted_dropWhile_ge)
  have bsL: "\<And>a. a \<in> set bs \<Longrightarrow> a \<in> L \<and> col (h1 ! a) = c" using bs(2) by auto
  have gt: "r < row (h1 ! a)" if "a \<in> set vs" for a
  proof -
    from that have "a \<in> set bs" by (simp add: bseq)
    with bsL absent [of a] have "row (h1 ! a) \<noteq> r" by (auto simp: h1_def)
    with ge [OF that] show ?thesis by simp
  qed
  have chain: "path (dnext h1) (pcol M1 ! nat c) (us @ vs) None" using bs(1) bseq by simp
  have loop: "insertnode_loop h1 r (pcol M1 ! nat c) None = Some (hd_ref vs, last_ref None us)"
    using insertnode_loop_path [OF bs(1), of r None] by (simp add: us_def vs_def)
  have lastL: "us \<noteq> [] \<Longrightarrow> last us \<in> L"
    using bsL [of "last us"] bseq by auto
  define h1' where "h1' = set_down h1 n (hd_ref vs)"
  define M2 where "M2 =
    (if us = [] then M1\<lparr>nodes := h1', pcol := (pcol M1)[nat c := Some n]\<rparr>
     else M1\<lparr>nodes := set_down h1' (last us) (Some n)\<rparr>)"
  have stop: "(case hd_ref vs of None \<Rightarrow> True | Some a \<Rightarrow> row (nodes M1 ! a) = r) \<longleftrightarrow> vs = []"
  proof (cases vs)
    case (Cons a vs')
    then have "r < row (h1 ! a)" using gt [of a] by simp
    then show ?thesis using Cons by (simp add: h1_def)
  qed simp
  have same: "vs = [] \<Longrightarrow> h1' = h1"
    using new(3) by (simp add: h1'_def h1_def set_down_None_id)
  have ic: "insert_col M1 r c (hd_ref vs) (last_ref None us) n = Inr M2"
  proof (cases "vs = []")
    case True
    with same have "h1' = nodes M1" by (simp add: h1_def)
    then show ?thesis using True c lenc
      by (auto simp: insert_col_def link_col_def last_ref_def M2_def)
  next
    case False
    then show ?thesis using stop c lenc
      by (auto simp: insert_col_def link_col_def last_ref_def M2_def h1'_def h1_def)
  qed
  have nodes2: "nodes M2 = (if us = [] then h1' else set_down h1' (last us) (Some n))"
    by (simp add: M2_def)
  have dims2: "prow M2 = prow M1" "nrows M2 = nrows M1" "ncols M2 = ncols M1"
    "length (pcol M2) = length (pcol M1)" "length (nodes M2) = length (nodes M1)"
    "pcol M2 = (if us = [] then (pcol M1)[nat c := Some n] else pcol M1)"
    by (simp_all add: M2_def h1'_def h1_def)
  have f2: "\<And>a. row (nodes M2 ! a) = row (h1 ! a) \<and> col (nodes M2 ! a) = col (h1 ! a) \<and>
      el (nodes M2 ! a) = el (h1 ! a) \<and> right (nodes M2 ! a) = right (h1 ! a)"
    by (simp add: nodes2 h1'_def)
  have len1: "n < length h1" using n by (simp add: h1_def)
  have dn_new: "dnext (nodes M2) n = hd_ref vs"
  proof -
    have "us \<noteq> [] \<Longrightarrow> last us \<noteq> n" using lastL Lb by auto
    then show ?thesis using len1
      by (auto simp: nodes2 h1'_def dnext_def set_down_down)
  qed
  have dn_old: "dnext (nodes M2) a = dnext h1 a" if "a \<in> L" "us = [] \<or> a \<noteq> last us" for a
  proof -
    from that Lb have "a \<noteq> n" by auto
    with that(2) show ?thesis
      by (auto simp: nodes2 h1'_def dnext_def set_down_down)
  qed
  have dn_last: "us \<noteq> [] \<Longrightarrow> dnext (nodes M2) (last us) = Some n"
  proof -
    assume ne: "us \<noteq> []"
    then have "last us < length h1" using lastL Lb len1 by fastforce
    with ne show ?thesis by (auto simp: nodes2 h1'_def dnext_def set_down_down)
  qed
  have "chains_ok (insert n L) (ncols M1) (pcol M2) (dnext (nodes M2))
       (\<lambda>a. col (nodes M2 ! a)) (\<lambda>a. row (nodes M2 ! a))"
  proof (rule chains_insert [where xs = us and ys = vs and x = r and i = c, OF ck])
    show "nat c < length (pcol M1)" using c lenc by auto
    show "n \<notin> L" using Lb by auto
    show "pcol M2 = (if us = [] then (pcol M1)[nat c := Some n] else pcol M1)"
      by (rule dims2)
    show "dnext (nodes M2) n = hd_ref vs" by (rule dn_new)
  qed (use c chain lt gt f2 new dn_old dn_last in \<open>auto simp: h1_def\<close>)
  then have cols2: "cols_ok (insert n L) M2" by (simp add: cols_ok_def dims2)
  have "chains_ok (insert n L) (nrows M1) (prow M1) (rnext (nodes M2))
       (\<lambda>a. row (nodes M2 ! a)) (\<lambda>a. col (nodes M2 ! a))"
  proof (rule chains_cong)
    show "chains_ok (insert n L) (nrows M1) (prow M1) (rnext (nodes M1))
        (\<lambda>a. row (nodes M1 ! a)) (\<lambda>a. col (nodes M1 ! a))"
      using rows by (simp add: rows_ok_def)
  qed (use f2 in \<open>auto simp: rnext_def h1_def\<close>)
  then have rows2: "rows_ok (insert n L) M2" by (simp add: rows_ok_def dims2)
  show ?thesis
    using loop ic cols2 rows2 dims2(1-5) f2 unfolding h1_def by blast
qed

lemma insertnode_wf:
  assumes wf: "wf_on L M" and r: "0 \<le> r" "r < nrows M" and c: "0 \<le> c" "c < ncols M"
    and chain: "path (rnext (nodes M)) (prow M ! nat r) (xs @ ys) None"
    and lt: "\<forall>a\<in>set xs. col (nodes M ! a) < c"
    and gt: "\<forall>a\<in>set ys. c < col (nodes M ! a)"
  shows "\<exists>M'. insertnode M r c (last_ref None xs) v = Some (Inr M') \<and>
     wf_on (insert (length (nodes M)) L) M' \<and> nrows M' = nrows M \<and> ncols M' = ncols M \<and>
     (\<forall>a\<in>L. row (nodes M' ! a) = row (nodes M ! a) \<and> col (nodes M' ! a) = col (nodes M ! a) \<and>
            el (nodes M' ! a) = el (nodes M ! a)) \<and>
     row (nodes M' ! length (nodes M)) = r \<and> col (nodes M' ! length (nodes M)) = c \<and>
     el (nodes M' ! length (nodes M)) = v"
proof -
  define n where "n = length (nodes M)"
  define M0 where "M0 = M\<lparr>nodes := nodes M @ [\<lparr>row = r, col = c, el = v, right = None, down = None\<rparr>]\<rparr>"
  have bnd: "bounds L M" using wf by (simp add: wf_on_def)
  have Lb: "\<And>a. a \<in> L \<Longrightarrow> a < n" using bnd by (simp add: bounds_def n_def)
  have lens: "length (prow M) = nat (nrows M)" "length (pcol M) = nat (ncols M)"
    using bnd by (simp_all add: bounds_def)
  obtain as where as: "path (rnext (nodes M)) (prow M ! nat r) as None"
    "set as = {a \<in> L. row (nodes M ! a) = r}"
    "sorted_wrt (<) (map (\<lambda>a. col (nodes M ! a)) as)"
    by (rule row_chainE [OF wf r])
  with chain have aseq: "as = xs @ ys" by (auto dest: path_unique)
  have absent0: "col (nodes M ! a) \<noteq> c" if "a \<in> L" "row (nodes M ! a) = r" for a
  proof -
    from that as(2) aseq have "a \<in> set xs \<or> a \<in> set ys" by auto
    then show ?thesis using lt gt by auto
  qed
  from insert_row_wf [OF wf r chain lt gt n_def M0_def] obtain M1 where M1:
    "insert_row M0 r (last_ref None xs) n = Inr M1"
    "rows_ok (insert n L) M1" "cols_ok L M1" "pcol M1 = pcol M"
    "nrows M1 = nrows M" "ncols M1 = ncols M" "length (prow M1) = length (prow M)"
    "length (nodes M1) = Suc n"
    "\<forall>a<n. row (nodes M1 ! a) = row (nodes M ! a) \<and> col (nodes M1 ! a) = col (nodes M ! a) \<and>
            el (nodes M1 ! a) = el (nodes M ! a)"
    "row (nodes M1 ! n) = r" "col (nodes M1 ! n) = c" "el (nodes M1 ! n) = v"
    "down (nodes M1 ! n) = None"
    by (elim exE conjE)
  have absent: "\<And>a. a \<in> L \<Longrightarrow> row (nodes M1 ! a) = r \<Longrightarrow> col (nodes M1 ! a) \<noteq> c"
    using absent0 M1(9) Lb by auto
  have "\<exists>p m M2. insertnode_loop (nodes M1) r (pcol M1 ! nat c) None = Some (p, m) \<and>
     insert_col M1 r c p m n = Inr M2 \<and>
     cols_ok (insert n L) M2 \<and> rows_ok (insert n L) M2 \<and> prow M2 = prow M1 \<and>
     length (pcol M2) = length (pcol M1) \<and> nrows M2 = nrows M1 \<and> ncols M2 = ncols M1 \<and>
     length (nodes M2) = length (nodes M1) \<and>
     (\<forall>a. row (nodes M2 ! a) = row (nodes M1 ! a) \<and> col (nodes M2 ! a) = col (nodes M1 ! a) \<and>
          el (nodes M2 ! a) = el (nodes M1 ! a))"
  proof (rule insert_col_wf [OF M1(3) M1(2)])
    show "length (pcol M1) = nat (ncols M1)" using lens M1 by simp
    show "0 \<le> c" "c < ncols M1" using c M1 by simp_all
    show "n < length (nodes M1)" using M1 by simp
  qed (use Lb M1 absent in auto)
  then obtain p m M2 where M2:
    "insertnode_loop (nodes M1) r (pcol M1 ! nat c) None = Some (p, m)"
    "insert_col M1 r c p m n = Inr M2"
    "cols_ok (insert n L) M2" "rows_ok (insert n L) M2" "prow M2 = prow M1"
    "length (pcol M2) = length (pcol M1)" "nrows M2 = nrows M1" "ncols M2 = ncols M1"
    "length (nodes M2) = length (nodes M1)"
    "\<forall>a. row (nodes M2 ! a) = row (nodes M1 ! a) \<and> col (nodes M2 ! a) = col (nodes M1 ! a) \<and>
          el (nodes M2 ! a) = el (nodes M1 ! a)"
    by (elim exE conjE)
  have run: "insertnode M r c (last_ref None xs) v = Some (Inr M2)"
    using M1(1) M2(1,2) c lens M1(4)
    by (simp add: insertnode_def Let_def n_def [symmetric] M0_def [symmetric])
  have fields: "\<And>a. a \<in> L \<Longrightarrow> row (nodes M2 ! a) = row (nodes M ! a) \<and>
      col (nodes M2 ! a) = col (nodes M ! a) \<and> el (nodes M2 ! a) = el (nodes M ! a)"
    using M2(10) M1(9) Lb by simp
  have newf: "row (nodes M2 ! n) = r" "col (nodes M2 ! n) = c" "el (nodes M2 ! n) = v"
    using M2(10) M1(10-12) by simp_all
  have dims: "nrows M2 = nrows M" "ncols M2 = ncols M"
    "length (prow M2) = nat (nrows M)" "length (pcol M2) = nat (ncols M)"
    "length (nodes M2) = Suc n"
    using M1(4-8) M2(5-9) lens by simp_all
  have oldb: "\<And>a. a \<in> L \<Longrightarrow> 0 \<le> row (nodes M ! a) \<and> row (nodes M ! a) < nrows M \<and>
      0 \<le> col (nodes M ! a) \<and> col (nodes M ! a) < ncols M"
    using bnd by (simp add: bounds_def)
  have "a < Suc n \<and> 0 \<le> row (nodes M2 ! a) \<and> row (nodes M2 ! a) < nrows M \<and>
        0 \<le> col (nodes M2 ! a) \<and> col (nodes M2 ! a) < ncols M" if "a \<in> insert n L" for a
  proof -
    from that consider "a = n" | "a \<in> L" by auto
    then show ?thesis
    proof cases
      case 1
      then show ?thesis using newf r c by simp
    next
      case 2
      then show ?thesis using fields [OF 2] oldb [OF 2] Lb [OF 2] by simp
    qed
  qed
  then have "bounds (insert n L) M2"
    by (simp add: bounds_def dims)
  then have "wf_on (insert n L) M2" using M2(3,4) by (simp add: wf_on_def)
  then show ?thesis using run fields newf dims(1,2) unfolding n_def by auto
qed

lemma remove_row_wf:
  assumes wf: "wf_on L M" and r: "0 \<le> r" "r < nrows M"
    and chain: "path (rnext (nodes M)) (prow M ! nat r) (xs @ a # ys) None"
  shows "\<exists>M1. remove_row M a (last_ref None xs) = Inr M1 \<and>
     rows_ok (L - {a}) M1 \<and> cols_ok L M1 \<and> pcol M1 = pcol M \<and>
     nrows M1 = nrows M \<and> ncols M1 = ncols M \<and> length (prow M1) = length (prow M) \<and>
     length (nodes M1) = length (nodes M) \<and>
     (\<forall>b. row (nodes M1 ! b) = row (nodes M ! b) \<and> col (nodes M1 ! b) = col (nodes M ! b) \<and>
          el (nodes M1 ! b) = el (nodes M ! b) \<and> down (nodes M1 ! b) = down (nodes M ! b))"
proof -
  define h where "h = nodes M"
  define M1 where "M1 =
    (if xs = [] then M\<lparr>prow := (prow M)[nat r := right (h ! a)]\<rparr>
     else M\<lparr>nodes := set_right h (last xs) (right (h ! a))\<rparr>)"
  have len: "length (prow M) = nat (nrows M)" and Lb: "\<And>b. b \<in> L \<Longrightarrow> b < length h"
    using wf by (auto simp: wf_on_def bounds_def h_def)
  have rows: "rows_ok L M" and cols: "cols_ok L M" using wf by (auto simp: wf_on_def)
  obtain as where as: "path (rnext (nodes M)) (prow M ! nat r) as None"
    "set as = {a \<in> L. row (nodes M ! a) = r}"
    "sorted_wrt (<) (map (\<lambda>a. col (nodes M ! a)) as)"
    by (rule row_chainE [OF wf r])
  with chain have aseq: "as = xs @ a # ys" by (auto dest: path_unique)
  have a: "a \<in> L" "row (h ! a) = r" using as(2) aseq by (auto simp: h_def)
  have xsL: "\<And>b. b \<in> set xs \<Longrightarrow> b \<in> L" using as(2) aseq by auto
  have lastL: "xs \<noteq> [] \<Longrightarrow> last xs < length h" using xsL Lb by auto
  have rr: "remove_row M a (last_ref None xs) = Inr M1"
    using r len a by (auto simp: remove_row_def last_ref_def M1_def h_def)
  have nodes1: "nodes M1 = (if xs = [] then h else set_right h (last xs) (right (h ! a)))"
    by (simp add: M1_def h_def)
  have dims1: "nrows M1 = nrows M" "ncols M1 = ncols M" "pcol M1 = pcol M"
    "length (prow M1) = length (prow M)" "length (nodes M1) = length h"
    "prow M1 = (if xs = [] then (prow M)[nat r := rnext h a] else prow M)"
    by (simp_all add: M1_def h_def rnext_def)
  have f1: "\<And>b. row (nodes M1 ! b) = row (h ! b) \<and> col (nodes M1 ! b) = col (h ! b) \<and>
      el (nodes M1 ! b) = el (h ! b) \<and> down (nodes M1 ! b) = down (h ! b)"
    by (simp add: nodes1)
  have rn_old: "\<And>b. xs = [] \<or> b \<noteq> last xs \<Longrightarrow> rnext (nodes M1) b = rnext h b"
    by (auto simp: nodes1 rnext_def set_right_right)
  have rn_last: "xs \<noteq> [] \<Longrightarrow> rnext (nodes M1) (last xs) = rnext h a"
    using lastL by (auto simp: nodes1 rnext_def set_right_right)
  have "chains_ok (L - {a}) (nrows M) (prow M1) (rnext (nodes M1))
       (\<lambda>a. row (nodes M1 ! a)) (\<lambda>a. col (nodes M1 ! a))"
  proof (rule chains_remove [where xs = xs and ys = ys and i = r])
    show "chains_ok L (nrows M) (prow M) (rnext h) (\<lambda>a. row (h ! a)) (\<lambda>a. col (h ! a))"
      using rows by (simp add: rows_ok_def h_def)
    show "nat r < length (prow M)" using r len by auto
    show "path (rnext h) (prow M ! nat r) (xs @ a # ys) None" using chain by (simp add: h_def)
    show "prow M1 = (if xs = [] then (prow M)[nat r := rnext h a] else prow M)"
      by (rule dims1)
  qed (use r f1 rn_old rn_last in auto)
  then have rows1: "rows_ok (L - {a}) M1" by (simp add: rows_ok_def dims1)
  have "chains_ok L (ncols M) (pcol M) (dnext (nodes M1))
       (\<lambda>a. col (nodes M1 ! a)) (\<lambda>a. row (nodes M1 ! a))"
  proof (rule chains_cong)
    show "chains_ok L (ncols M) (pcol M) (dnext h) (\<lambda>a. col (h ! a)) (\<lambda>a. row (h ! a))"
      using cols by (simp add: cols_ok_def h_def)
  qed (use f1 in \<open>auto simp: dnext_def\<close>)
  then have cols1: "cols_ok L M1" by (simp add: cols_ok_def dims1)
  show ?thesis
    using rr rows1 cols1 f1 dims1(1-5) unfolding h_def by blast
qed

lemma remove_col_wf:
  assumes cols: "cols_ok L M1" and rows: "rows_ok (L - {a}) M1"
    and lenc: "length (pcol M1) = nat (ncols M1)"
    and a: "a \<in> L" "0 \<le> col (nodes M1 ! a)" "col (nodes M1 ! a) < ncols M1"
    and Lb: "\<And>b. b \<in> L \<Longrightarrow> b < length (nodes M1)"
  shows "\<exists>M2. remove_col M1 a = Some (Inr M2) \<and>
     cols_ok (L - {a}) M2 \<and> rows_ok (L - {a}) M2 \<and> prow M2 = prow M1 \<and>
     length (pcol M2) = length (pcol M1) \<and> nrows M2 = nrows M1 \<and> ncols M2 = ncols M1 \<and>
     length (nodes M2) = length (nodes M1) \<and>
     (\<forall>b. row (nodes M2 ! b) = row (nodes M1 ! b) \<and> col (nodes M2 ! b) = col (nodes M1 ! b) \<and>
          el (nodes M2 ! b) = el (nodes M1 ! b))"
proof -
  define h1 where "h1 = nodes M1"
  define c where "c = col (h1 ! a)"
  have c: "0 \<le> c" "c < ncols M1" using a by (simp_all add: c_def h1_def)
  from cols have ck: "chains_ok L (ncols M1) (pcol M1) (dnext h1)
      (\<lambda>a. col (h1 ! a)) (\<lambda>a. row (h1 ! a))"
    by (simp add: cols_ok_def h1_def)
  from chains_okD [OF ck c] obtain bs where bs:
    "path (dnext h1) (pcol M1 ! nat c) bs None" "set bs = {a \<in> L. col (h1 ! a) = c}"
    "sorted_wrt (<) (map (\<lambda>a. row (h1 ! a)) bs)"
    by (elim exE conjE)
  have "a \<in> set bs" using bs(2) a(1) by (simp add: c_def)
  then obtain us vs where bseq: "bs = us @ a # vs" by (auto dest: split_list)
  have chain: "path (dnext h1) (pcol M1 ! nat c) (us @ a # vs) None" using bs(1) bseq by simp
  have usL: "\<And>b. b \<in> set us \<Longrightarrow> b \<in> L" using bs(2) bseq by auto
  have lastL: "us \<noteq> [] \<Longrightarrow> last us < length h1" using usL Lb by (auto simp: h1_def)
  have us_rows: "\<And>b. b \<in> set us \<Longrightarrow> row (h1 ! b) \<noteq> row (h1 ! a)"
    using bs(3) bseq by (auto simp: sorted_wrt_append)
  have "distinct bs" using bs(3) by (rule sorted_key_distinct)
  then have notin: "a \<notin> set us" using bseq by simp
  have head: "pcol M1 ! nat c = Some a \<longleftrightarrow> us = []"
  proof (cases us)
    case Nil
    then show ?thesis using chain by simp
  next
    case (Cons u us')
    then show ?thesis using chain notin by auto
  qed
  define M2 where "M2 =
    (if us = [] then M1\<lparr>pcol := (pcol M1)[nat c := down (h1 ! a)]\<rparr>
     else M1\<lparr>nodes := set_down h1 (last us) (down (h1 ! a))\<rparr>)"
  have loop: "us \<noteq> [] \<Longrightarrow>
      removenode_loop h1 (row (h1 ! a)) (pcol M1 ! nat c) None = Some (Inr (Some (last us)))"
    using removenode_loop_path [OF chain refl us_rows, of None] by (simp add: last_ref_def)
  have rc: "remove_col M1 a = Some (Inr M2)"
  proof (cases "us = []")
    case True
    then show ?thesis using head c lenc
      by (auto simp: remove_col_def M2_def h1_def [symmetric] c_def [symmetric])
  next
    case False
    then show ?thesis using head c lenc loop [OF False]
      by (auto simp: remove_col_def M2_def h1_def [symmetric] c_def [symmetric])
  qed
  have nodes2: "nodes M2 = (if us = [] then h1 else set_down h1 (last us) (down (h1 ! a)))"
    by (simp add: M2_def h1_def)
  have dims2: "prow M2 = prow M1" "nrows M2 = nrows M1" "ncols M2 = ncols M1"
    "length (pcol M2) = length (pcol M1)" "length (nodes M2) = length (nodes M1)"
    "pcol M2 = (if us = [] then (pcol M1)[nat c := dnext h1 a] else pcol M1)"
    by (simp_all add: M2_def h1_def dnext_def)
  have f2: "\<And>b. row (nodes M2 ! b) = row (h1 ! b) \<and> col (nodes M2 ! b) = col (h1 ! b) \<and>
      el (nodes M2 ! b) = el (h1 ! b) \<and> right (nodes M2 ! b) = right (h1 ! b)"
    by (simp add: nodes2)
  have dn_old: "\<And>b. us = [] \<or> b \<noteq> last us \<Longrightarrow> dnext (nodes M2) b = dnext h1 b"
    by (auto simp: nodes2 dnext_def set_down_down)
  have dn_last: "us \<noteq> [] \<Longrightarrow> dnext (nodes M2) (last us) = dnext h1 a"
    using lastL by (auto simp: nodes2 dnext_def set_down_down)
  have "chains_ok (L - {a}) (ncols M1) (pcol M2) (dnext (nodes M2))
       (\<lambda>a. col (nodes M2 ! a)) (\<lambda>a. row (nodes M2 ! a))"
  proof (rule chains_remove [where xs = us and ys = vs and i = c, OF ck])
    show "nat c < length (pcol M1)" using c lenc by auto
    show "pcol M2 = (if us = [] then (pcol M1)[nat c := dnext h1 a] else pcol M1)"
      by (rule dims2)
  qed (use c chain f2 dn_old dn_last in auto)
  then have cols2: "cols_ok (L - {a}) M2" by (simp add: cols_ok_def dims2)
  have "chains_ok (L - {a}) (nrows M1) (prow M1) (rnext (nodes M2))
       (\<lambda>a. row (nodes M2 ! a)) (\<lambda>a. col (nodes M2 ! a))"
  proof (rule chains_cong)
    show "chains_ok (L - {a}) (nrows M1) (prow M1) (rnext (nodes M1))
        (\<lambda>a. row (nodes M1 ! a)) (\<lambda>a. col (nodes M1 ! a))"
      using rows by (simp add: rows_ok_def)
  qed (use f2 in \<open>auto simp: rnext_def h1_def\<close>)
  then have rows2: "rows_ok (L - {a}) M2" by (simp add: rows_ok_def dims2)
  show ?thesis
    using rc cols2 rows2 dims2(1-5) f2 unfolding h1_def by blast
qed

lemma removenode_wf:
  assumes wf: "wf_on L M" and r: "0 \<le> r" "r < nrows M"
    and chain: "path (rnext (nodes M)) (prow M ! nat r) (xs @ a # ys) None"
  shows "\<exists>M'. removenode M (Some a) (last_ref None xs) = Some (Inr M') \<and>
     wf_on (L - {a}) M' \<and> nrows M' = nrows M \<and> ncols M' = ncols M \<and>
     (\<forall>b. row (nodes M' ! b) = row (nodes M ! b) \<and> col (nodes M' ! b) = col (nodes M ! b) \<and>
          el (nodes M' ! b) = el (nodes M ! b))"
proof -
  have bnd: "bounds L M" using wf by (simp add: wf_on_def)
  obtain as where as: "path (rnext (nodes M)) (prow M ! nat r) as None"
    "set as = {a \<in> L. row (nodes M ! a) = r}"
    "sorted_wrt (<) (map (\<lambda>a. col (nodes M ! a)) as)"
    by (rule row_chainE [OF wf r])
  with chain have aseq: "as = xs @ a # ys" by (auto dest: path_unique)
  have a: "a \<in> L" using as(2) aseq by auto
  from remove_row_wf [OF wf r chain] obtain M1 where M1:
    "remove_row M a (last_ref None xs) = Inr M1"
    "rows_ok (L - {a}) M1" "cols_ok L M1" "pcol M1 = pcol M"
    "nrows M1 = nrows M" "ncols M1 = ncols M" "length (prow M1) = length (prow M)"
    "length (nodes M1) = length (nodes M)"
    "\<forall>b. row (nodes M1 ! b) = row (nodes M ! b) \<and> col (nodes M1 ! b) = col (nodes M ! b) \<and>
          el (nodes M1 ! b) = el (nodes M ! b) \<and> down (nodes M1 ! b) = down (nodes M ! b)"
    by (elim exE conjE)
  have "\<exists>M2. remove_col M1 a = Some (Inr M2) \<and>
     cols_ok (L - {a}) M2 \<and> rows_ok (L - {a}) M2 \<and> prow M2 = prow M1 \<and>
     length (pcol M2) = length (pcol M1) \<and> nrows M2 = nrows M1 \<and> ncols M2 = ncols M1 \<and>
     length (nodes M2) = length (nodes M1) \<and>
     (\<forall>b. row (nodes M2 ! b) = row (nodes M1 ! b) \<and> col (nodes M2 ! b) = col (nodes M1 ! b) \<and>
          el (nodes M2 ! b) = el (nodes M1 ! b))"
  proof (rule remove_col_wf [OF M1(3) M1(2) _ a])
    show "length (pcol M1) = nat (ncols M1)" using bnd M1 by (simp add: bounds_def)
    show "0 \<le> col (nodes M1 ! a)" "col (nodes M1 ! a) < ncols M1"
      using bnd a M1 by (simp_all add: bounds_def)
    show "\<And>b. b \<in> L \<Longrightarrow> b < length (nodes M1)" using bnd M1 by (simp add: bounds_def)
  qed
  then obtain M2 where M2:
    "remove_col M1 a = Some (Inr M2)"
    "cols_ok (L - {a}) M2" "rows_ok (L - {a}) M2" "prow M2 = prow M1"
    "length (pcol M2) = length (pcol M1)" "nrows M2 = nrows M1" "ncols M2 = ncols M1"
    "length (nodes M2) = length (nodes M1)"
    "\<forall>b. row (nodes M2 ! b) = row (nodes M1 ! b) \<and> col (nodes M2 ! b) = col (nodes M1 ! b) \<and>
          el (nodes M2 ! b) = el (nodes M1 ! b)"
    by (elim exE conjE)
  have run: "removenode M (Some a) (last_ref None xs) = Some (Inr M2)"
    using M1(1) M2(1) by (simp add: removenode_def)
  have fields: "\<And>b. row (nodes M2 ! b) = row (nodes M ! b) \<and>
      col (nodes M2 ! b) = col (nodes M ! b) \<and> el (nodes M2 ! b) = el (nodes M ! b)"
    using M2(9) M1(9) by simp
  have "bounds (L - {a}) M2"
    using bnd M1(4-8) M2(4-8) fields by (simp add: bounds_def)
  then have "wf_on (L - {a}) M2" using M2(2,3) by (simp add: wf_on_def)
  then show ?thesis using run fields M1(5,6) M2(6,7) by auto
qed

lemma findnode_cases [consumes 3, case_names absent present]:
  assumes wf: "wf_on L M" and r: "0 \<le> r" "r < nrows M"
  obtains (absent) xs ys where
      "path (rnext (nodes M)) (prow M ! nat r) (xs @ ys) None"
      "\<forall>a\<in>set xs. col (nodes M ! a) < c" "\<forall>a\<in>set ys. c < col (nodes M ! a)"
      "findnode M r c = Some (Inr (None, last_ref None xs))"
      "\<forall>a\<in>L. row (nodes M ! a) = r \<longrightarrow> col (nodes M ! a) \<noteq> c"
    | (present) xs a ys where
      "path (rnext (nodes M)) (prow M ! nat r) (xs @ a # ys) None"
      "a \<in> L" "row (nodes M ! a) = r" "col (nodes M ! a) = c"
      "findnode M r c = Some (Inr (Some a, last_ref None xs))"
proof -
  obtain xs ys where f:
    "path (rnext (nodes M)) (prow M ! nat r) (xs @ ys) None"
    "set (xs @ ys) = {a \<in> L. row (nodes M ! a) = r}"
    "sorted_wrt (<) (map (\<lambda>a. col (nodes M ! a)) (xs @ ys))"
    "\<forall>a\<in>set xs. col (nodes M ! a) < c"
    "\<forall>a\<in>set ys. c \<le> col (nodes M ! a)"
    "findnode M r c = Some (Inr (found (nodes M) c ys, last_ref None xs))"
    by (rule findnode_wf [OF wf r, of c])
  have lt: "\<forall>a\<in>set xs. col (nodes M ! a) < c" by (rule f(4))
  have not_c: "col (nodes M ! a) \<noteq> c"
    if gt: "\<forall>a\<in>set ys. c < col (nodes M ! a)" and a: "a \<in> L" "row (nodes M ! a) = r" for a
  proof -
    from a f(2) have "a \<in> set xs \<or> a \<in> set ys" by auto
    then show ?thesis using lt gt by auto
  qed
  show thesis
  proof (cases ys)
    case Nil
    have "findnode M r c = Some (Inr (None, last_ref None xs))"
      using f(6) Nil by (simp add: found_def)
    moreover have gt: "\<forall>a\<in>set ys. c < col (nodes M ! a)" using Nil by simp
    moreover have "\<forall>a\<in>L. row (nodes M ! a) = r \<longrightarrow> col (nodes M ! a) \<noteq> c"
      using not_c [OF gt] by blast
    ultimately show ?thesis using f(1) lt by (intro absent [of xs ys])
  next
    case (Cons y ys')
    show ?thesis
    proof (cases "col (nodes M ! y) = c")
      case True
      have "y \<in> set (xs @ ys)" using Cons by simp
      then have "y \<in> L" "row (nodes M ! y) = r" unfolding f(2) by simp_all
      moreover have "findnode M r c = Some (Inr (Some y, last_ref None xs))"
        using f(6) Cons True by (simp add: found_def)
      moreover have "path (rnext (nodes M)) (prow M ! nat r) (xs @ y # ys') None"
        using f(1) Cons by simp
      ultimately show ?thesis using True by (intro present [of xs y ys'])
    next
      case False
      have y: "c < col (nodes M ! y)" using f(5) Cons False by fastforce
      have "\<forall>a\<in>set ys'. col (nodes M ! y) < col (nodes M ! a)"
        using f(3) Cons by (simp add: sorted_wrt_append)
      with y have gt: "\<forall>a\<in>set ys. c < col (nodes M ! a)" using Cons by fastforce
      have "findnode M r c = Some (Inr (None, last_ref None xs))"
        using f(6) Cons False by (simp add: found_def)
      moreover have "\<forall>a\<in>L. row (nodes M ! a) = r \<longrightarrow> col (nodes M ! a) \<noteq> c"
        using not_c [OF gt] by blast
      ultimately show ?thesis using f(1) lt gt by (intro absent [of xs ys])
    qed
  qed
qed

lemma getitem_wf:
  assumes wf: "wf_on L M" and r: "0 \<le> r" "r < nrows M"
  shows "\<exists>x. getitem M r c = Some (Inr x) \<and>
     (content L M r c = {} \<and> x = 0 \<or> content L M r c = {x})"
  using wf r
proof (cases rule: findnode_cases [where c = c])
  case (absent xs ys)
  have "content L M r c = {}" by (rule content_empty) (use absent(5) in auto)
  then show ?thesis using absent(4) by (simp add: getitem_def)
next
  case (present xs a ys)
  have "content L M r c = {el (nodes M ! a)}"
  proof (rule content_single [OF present(2-4)])
    fix b assume "b \<in> L" "row (nodes M ! b) = r" "col (nodes M ! b) = c"
    then show "b = a" using wf_on_unique [OF wf _ present(2), of b] present by simp
  qed
  then show ?thesis using present(5) by (simp add: getitem_def)
qed

lemma set_el_wf:
  assumes wf: "wf_on L M"
  shows "wf_on L (M\<lparr>nodes := set_el (nodes M) a v\<rparr>)"
proof -
  let ?M = "M\<lparr>nodes := set_el (nodes M) a v\<rparr>"
  have "chains_ok L (nrows M) (prow M) (rnext (nodes ?M))
       (\<lambda>a. row (nodes ?M ! a)) (\<lambda>a. col (nodes ?M ! a))"
  proof (rule chains_cong)
    show "chains_ok L (nrows M) (prow M) (rnext (nodes M)) (\<lambda>a. row (nodes M ! a)) (\<lambda>a. col (nodes M ! a))"
      using wf by (simp add: wf_on_def rows_ok_def)
  qed simp_all
  moreover have "chains_ok L (ncols M) (pcol M) (dnext (nodes ?M))
       (\<lambda>a. col (nodes ?M ! a)) (\<lambda>a. row (nodes ?M ! a))"
  proof (rule chains_cong)
    show "chains_ok L (ncols M) (pcol M) (dnext (nodes M)) (\<lambda>a. col (nodes M ! a)) (\<lambda>a. row (nodes M ! a))"
      using wf by (simp add: wf_on_def cols_ok_def)
  qed simp_all
  moreover have "bounds L ?M" using wf by (simp add: wf_on_def bounds_def)
  ultimately show ?thesis by (simp add: wf_on_def rows_ok_def cols_ok_def)
qed

lemma setitem_wf:
  assumes wf: "wf_on L M" and r: "0 \<le> r" "r < nrows M" and c: "0 \<le> c" "c < ncols M"
  shows "\<exists>M' L'. setitem M r c v = Some (Inr M') \<and> set_effect L M r c v L' M'"
  using wf r
proof (cases rule: findnode_cases [where c = c])
  case (absent xs ys)
  have empty: "content L M r c = {}" by (rule content_empty) (use absent(5) in auto)
  show ?thesis
  proof (cases "v = 0")
    case True
    have "set_effect L M r c v L M"
      using wf True empty by (simp add: set_effect_def)
    moreover have "setitem M r c v = Some (Inr M)" using absent(4) True by (simp add: setitem_def)
    ultimately show ?thesis by (intro exI [of _ M] exI [of _ L] conjI)
  next
    case False
    define n where "n = length (nodes M)"
    from insertnode_wf [OF wf r c absent(1-3), of v] obtain M' where M':
      "insertnode M r c (last_ref None xs) v = Some (Inr M')"
      "wf_on (insert n L) M'" "nrows M' = nrows M" "ncols M' = ncols M"
      "\<forall>a\<in>L. row (nodes M' ! a) = row (nodes M ! a) \<and> col (nodes M' ! a) = col (nodes M ! a) \<and>
            el (nodes M' ! a) = el (nodes M ! a)"
      "row (nodes M' ! n) = r" "col (nodes M' ! n) = c" "el (nodes M' ! n) = v"
      unfolding n_def by (elim exE conjE)
    have old: "content L M' r' c' = content L M r' c'" for r' c'
      by (rule content_cong) (use M'(5) in simp)
    have "content (insert n L) M' r' c' =
        (if r' = r \<and> c' = c then (if v = 0 then {} else {v}) else content L M r' c')" for r' c'
      using False empty by (auto simp: content_insert M'(6-8) old)
    then have "set_effect L M r c v (insert n L) M'"
      using M'(2-4) by (simp add: set_effect_def)
    moreover have "setitem M r c v = Some (Inr M')"
      using absent(4) False M'(1) by (simp add: setitem_def)
    ultimately show ?thesis by (intro exI [of _ M'] exI [of _ "insert n L"] conjI)
  qed
next
  case (present xs a ys)
  have uniq: "b = a" if "b \<in> L" "row (nodes M ! b) = r" "col (nodes M ! b) = c" for b
    using wf_on_unique [OF wf that(1) present(2)] that present by simp
  show ?thesis
  proof (cases "v = 0")
    case True
    from removenode_wf [OF wf r present(1)] obtain M' where M':
      "removenode M (Some a) (last_ref None xs) = Some (Inr M')"
      "wf_on (L - {a}) M'" "nrows M' = nrows M" "ncols M' = ncols M"
      "\<forall>b. row (nodes M' ! b) = row (nodes M ! b) \<and> col (nodes M' ! b) = col (nodes M ! b) \<and>
          el (nodes M' ! b) = el (nodes M ! b)"
      by (elim exE conjE)
    have old: "content (L - {a}) M' r' c' = content (L - {a}) M r' c'" for r' c'
      by (rule content_cong) (use M'(5) in simp)
    have "content (L - {a}) M' r' c' =
        (if r' = r \<and> c' = c then (if v = 0 then {} else {v}) else content L M r' c')" for r' c'
    proof (cases "r' = r \<and> c' = c")
      case T: True
      have "content (L - {a}) M r c = {}"
      proof (rule content_empty)
        fix b assume "b \<in> L - {a}" "row (nodes M ! b) = r"
        then show "col (nodes M ! b) \<noteq> c" using uniq [of b] by blast
      qed
      then show ?thesis using T True by (simp add: old)
    next
      case F: False
      then have "content (L - {a}) M r' c' = content L M r' c'"
        by (intro content_remove) (use present(3,4) in auto)
      then show ?thesis using F by (auto simp: old)
    qed
    then have "set_effect L M r c v (L - {a}) M'"
      using M'(2-4) by (simp add: set_effect_def)
    moreover have "setitem M r c v = Some (Inr M')"
      using present(5) True M'(1) by (simp add: setitem_def)
    ultimately show ?thesis by (intro exI [of _ M'] exI [of _ "L - {a}"] conjI)
  next
    case False
    define M' where "M' = M\<lparr>nodes := set_el (nodes M) a v\<rparr>"
    have alen: "a < length (nodes M)" using wf present(2) by (auto simp: wf_on_def bounds_def)
    have frow: "\<And>b. row (nodes M' ! b) = row (nodes M ! b)"
      and fcol: "\<And>b. col (nodes M' ! b) = col (nodes M ! b)"
      and ela: "el (nodes M' ! a) = v" and elb: "\<And>b. b \<noteq> a \<Longrightarrow> el (nodes M' ! b) = el (nodes M ! b)"
      using alen by (simp_all add: M'_def set_el_el)
    have "content L M' r' c' =
        (if r' = r \<and> c' = c then (if v = 0 then {} else {v}) else content L M r' c')" for r' c'
    proof (cases "r' = r \<and> c' = c")
      case T: True
      have "content L M' r c = {el (nodes M' ! a)}"
      proof (rule content_single [of a])
        show "a \<in> L" by (rule present(2))
        show "row (nodes M' ! a) = r" using present(3) by (simp add: frow)
        show "col (nodes M' ! a) = c" using present(4) by (simp add: fcol)
        fix b assume "b \<in> L" "row (nodes M' ! b) = r" "col (nodes M' ! b) = c"
        then show "b = a" using uniq [of b] by (simp add: frow fcol)
      qed
      then show ?thesis using T False ela by simp
    next
      case F: False
      have na: "row (nodes M ! a) \<noteq> r' \<or> col (nodes M ! a) \<noteq> c'"
        using F present(3,4) by auto
      have "content L M' r' c' = content (L - {a}) M' r' c'"
        by (rule content_remove [symmetric]) (use na in \<open>simp add: frow fcol\<close>)
      also have "\<dots> = content (L - {a}) M r' c'"
        by (rule content_cong) (simp add: frow fcol elb)
      also have "\<dots> = content L M r' c'"
        using na by (rule content_remove)
      finally show ?thesis using F by auto
    qed
    moreover have "wf_on L M'" unfolding M'_def using wf by (rule set_el_wf)
    ultimately have "set_effect L M r c v L M'"
      by (simp add: set_effect_def M'_def)
    moreover have "setitem M r c v = Some (Inr M')"
      using present(5) False by (simp add: setitem_def M'_def)
    ultimately show ?thesis by (intro exI [of _ M'] exI [of _ L] conjI)
  qed
qed

lemma wf_matrix_Matrix: "wf_matrix (Matrix nr nc)"
  unfolding wf_matrix_def using wf_on_Matrix by blast

lemma wf_on_row_chain:
  assumes wf: "wf_on L M" and r: "0 \<le> r" "r < nrows M" and ch: "row_chain M r as"
  shows "set as = {a \<in> L. row (nodes M ! a) = r}"
    and "sorted_wrt (<) (map (\<lambda>a. col (nodes M ! a)) as)"
proof -
  obtain as' where as': "path (rnext (nodes M)) (prow M ! nat r) as' None"
    "set as' = {a \<in> L. row (nodes M ! a) = r}"
    "sorted_wrt (<) (map (\<lambda>a. col (nodes M ! a)) as')"
    by (rule row_chainE [OF wf r])
  from ch as'(1) have "as = as'" unfolding row_chain_def by (rule path_unique)
  with as' show "set as = {a \<in> L. row (nodes M ! a) = r}"
    and "sorted_wrt (<) (map (\<lambda>a. col (nodes M ! a)) as)" by simp_all
qed

lemma wf_on_col_chain:
  assumes wf: "wf_on L M" and c: "0 \<le> c" "c < ncols M" and ch: "col_chain M c bs"
  shows "set bs = {a \<in> L. col (nodes M ! a) = c}"
    and "sorted_wrt (<) (map (\<lambda>a. row (nodes M ! a)) bs)"
proof -
  obtain bs' where bs': "path (dnext (nodes M)) (pcol M ! nat c) bs' None"
    "set bs' = {a \<in> L. col (nodes M ! a) = c}"
    "sorted_wrt (<) (map (\<lambda>a. row (nodes M ! a)) bs')"
    by (rule col_chainE [OF wf c])
  from ch bs'(1) have "bs = bs'" unfolding col_chain_def by (rule path_unique)
  with bs' show "set bs = {a \<in> L. col (nodes M ! a) = c}"
    and "sorted_wrt (<) (map (\<lambda>a. row (nodes M ! a)) bs)" by simp_all
qed

lemma wf_on_row_chain_ex:
  assumes wf: "wf_on L M" and r: "0 \<le> r" "r < nrows M"
  shows "\<exists>as. row_chain M r as"
proof -
  obtain as where "path (rnext (nodes M)) (prow M ! nat r) as None"
    "set as = {a \<in> L. row (nodes M ! a) = r}"
    "sorted_wrt (<) (map (\<lambda>a. col (nodes M ! a)) as)"
    by (rule row_chainE [OF wf r])
  then show ?thesis unfolding row_chain_def by blast
qed

lemma wf_on_col_chain_ex:
  assumes wf: "wf_on L M" and c: "0 \<le> c" "c < ncols M"
  shows "\<exists>bs. col_chain M c bs"
proof -
  obtain bs where "path (dnext (nodes M)) (pcol M ! nat c) bs None"
    "set bs = {a \<in> L. col (nodes M ! a) = c}"
    "sorted_wrt (<) (map (\<lambda>a. row (nodes M ! a)) bs)"
    by (rule col_chainE [OF wf c])
  then show ?thesis unfolding col_chain_def by blast
qed

lemma wf_on_in_row:
  assumes wf: "wf_on L M"
  shows "in_row M r a \<longleftrightarrow> a \<in> L \<and> row (nodes M ! a) = r"
proof
  assume "in_row M r a"
  then obtain as where r: "0 \<le> r" "r < nrows M" and as: "row_chain M r as" "a \<in> set as"
    unfolding in_row_def by blast
  from as(2) show "a \<in> L \<and> row (nodes M ! a) = r"
    unfolding wf_on_row_chain(1) [OF wf r as(1)] by simp
next
  assume a: "a \<in> L \<and> row (nodes M ! a) = r"
  then have r: "0 \<le> r" "r < nrows M" using wf by (auto simp: wf_on_def bounds_def)
  from wf_on_row_chain_ex [OF wf r] obtain as where as: "row_chain M r as" ..
  have "a \<in> set as" unfolding wf_on_row_chain(1) [OF wf r as] using a by simp
  with r as show "in_row M r a" unfolding in_row_def by blast
qed

lemma wf_on_in_col:
  assumes wf: "wf_on L M"
  shows "in_col M c a \<longleftrightarrow> a \<in> L \<and> col (nodes M ! a) = c"
proof
  assume "in_col M c a"
  then obtain bs where c: "0 \<le> c" "c < ncols M" and bs: "col_chain M c bs" "a \<in> set bs"
    unfolding in_col_def by blast
  from bs(2) show "a \<in> L \<and> col (nodes M ! a) = c"
    unfolding wf_on_col_chain(1) [OF wf c bs(1)] by simp
next
  assume a: "a \<in> L \<and> col (nodes M ! a) = c"
  then have c: "0 \<le> c" "c < ncols M" using wf by (auto simp: wf_on_def bounds_def)
  from wf_on_col_chain_ex [OF wf c] obtain bs where bs: "col_chain M c bs" ..
  have "a \<in> set bs" unfolding wf_on_col_chain(1) [OF wf c bs] using a by simp
  with c bs show "in_col M c a" unfolding in_col_def by blast
qed

lemma wf_rows_increasing: "wf_matrix M \<Longrightarrow> rows_increasing M"
  unfolding rows_increasing_def
proof (intro allI impI)
  fix r assume w: "wf_matrix M" and r: "0 \<le> r \<and> r < nrows M"
  from w obtain L where wf: "wf_on L M" unfolding wf_matrix_def ..
  from r have r': "0 \<le> r" "r < nrows M" by simp_all
  from wf_on_row_chain_ex [OF wf r'] obtain as where as: "row_chain M r as" ..
  have "\<forall>a\<in>set as. row (nodes M ! a) = r"
    unfolding wf_on_row_chain(1) [OF wf r' as] by simp
  with as wf_on_row_chain(2) [OF wf r' as]
  show "\<exists>as. row_chain M r as \<and> (\<forall>a\<in>set as. row (nodes M ! a) = r) \<and>
      sorted_wrt (<) (map (\<lambda>a. col (nodes M ! a)) as)"
    by (intro exI [of _ as] conjI)
qed

lemma wf_cols_increasing: "wf_matrix M \<Longrightarrow> cols_increasing M"
  unfolding cols_increasing_def
proof (intro allI impI)
  fix c assume w: "wf_matrix M" and c: "0 \<le> c \<and> c < ncols M"
  from w obtain L where wf: "wf_on L M" unfolding wf_matrix_def ..
  from c have c': "0 \<le> c" "c < ncols M" by simp_all
  from wf_on_col_chain_ex [OF wf c'] obtain bs where bs: "col_chain M c bs" ..
  have "\<forall>b\<in>set bs. col (nodes M ! b) = c"
    unfolding wf_on_col_chain(1) [OF wf c' bs] by simp
  with bs wf_on_col_chain(2) [OF wf c' bs]
  show "\<exists>bs. col_chain M c bs \<and> (\<forall>b\<in>set bs. col (nodes M ! b) = c) \<and>
      sorted_wrt (<) (map (\<lambda>b. row (nodes M ! b)) bs)"
    by (intro exI [of _ bs] conjI)
qed

lemma wf_chains_agree: "wf_matrix M \<Longrightarrow> chains_agree M"
proof -
  assume "wf_matrix M"
  then obtain L where wf: "wf_on L M" unfolding wf_matrix_def ..
  show ?thesis
    unfolding chains_agree_def wf_on_in_row [OF wf] wf_on_in_col [OF wf] by simp
qed

lemma setitem_wf':
  assumes "wf_matrix M" "0 \<le> r" "r < nrows M" "0 \<le> c" "c < ncols M"
  shows "\<exists>M'. setitem M r c v = Some (Inr M') \<and> wf_matrix M' \<and> nrows M' = nrows M \<and> ncols M' = ncols M"
proof -
  from assms(1) obtain L where wf: "wf_on L M" unfolding wf_matrix_def ..
  from setitem_wf [OF wf assms(2-5), of v] obtain M' L' where
    "setitem M r c v = Some (Inr M')" "set_effect L M r c v L' M'" by blast
  then show ?thesis unfolding set_effect_def wf_matrix_def by blast
qed

lemma setitems_wf:
  "wf_matrix M \<Longrightarrow> \<forall>(r, c, v) \<in> set ops. 0 \<le> r \<and> r < nrows M \<and> 0 \<le> c \<and> c < ncols M \<Longrightarrow>
   \<exists>M'. setitems M ops = Some (Inr M') \<and> wf_matrix M' \<and> nrows M' = nrows M \<and> ncols M' = ncols M"
proof (induction ops arbitrary: M)
  case Nil
  then show ?case by simp
next
  case (Cons op ops)
  obtain r c v where op: "op = (r, c, v)" by (cases op)
  with Cons.prems have rng: "0 \<le> r" "r < nrows M" "0 \<le> c" "c < ncols M" by simp_all
  from setitem_wf' [OF Cons.prems(1) rng, of v] obtain M1 where M1:
    "setitem M r c v = Some (Inr M1)" "wf_matrix M1" "nrows M1 = nrows M" "ncols M1 = ncols M"
    by blast
  have "\<forall>(r, c, v) \<in> set ops. 0 \<le> r \<and> r < nrows M1 \<and> 0 \<le> c \<and> c < ncols M1"
    using Cons.prems(2) M1(3,4) by simp
  from Cons.IH [OF M1(2) this] obtain M' where
    "setitems M1 ops = Some (Inr M')" "wf_matrix M'" "nrows M' = nrows M1" "ncols M' = ncols M1"
    by blast
  then show ?case using M1 op by (simp add: and_then_def)
qed


section \<open>Assignments keep the chains ordered and in agreement\<close>

text \<open>
  C7. Every sequence of assignments \<open>M[r, c] = v\<close> with coordinates in range on a
  constructed matrix returns, and after it every row chain visits entries of its row with
  strictly increasing column, every column chain visits entries of its column with strictly
  increasing row, and the entries reachable from the row heads are those reachable from the
  column heads, each in one chain of each kind.
\<close>

theorem set_sequence_keeps_invariants:
  assumes "\<forall>(r, c, v) \<in> set ops. 0 \<le> r \<and> r < nr \<and> 0 \<le> c \<and> c < nc"
  shows "\<exists>M. setitems (Matrix nr nc) ops = Some (Inr M) \<and>
    rows_increasing M \<and> cols_increasing M \<and> chains_agree M"
proof -
  have "\<forall>(r, c, v) \<in> set ops. 0 \<le> r \<and> r < nrows (Matrix nr nc) \<and> 0 \<le> c \<and> c < ncols (Matrix nr nc)"
    using assms by (simp add: Matrix_def)
  from setitems_wf [OF wf_matrix_Matrix this] obtain M where
    "setitems (Matrix nr nc) ops = Some (Inr M)" "wf_matrix M" by blast
  then show ?thesis
    using wf_rows_increasing wf_cols_increasing wf_chains_agree by blast
qed

theorem set_sequence_keeps_invariants_witness:
  "\<exists>M. setitems (Matrix 2 2) [(0, 0, 1), (1, 1, 2), (0, 1, 3), (1, 0, 4), (0, 0, 0), (1, 1, 9)]
          = Some (Inr M) \<and>
    rows_increasing M \<and> cols_increasing M \<and> chains_agree M"
  by (rule set_sequence_keeps_invariants) simp

section \<open>Reading back what was assigned\<close>





section \<open>An assignment changes one entry only\<close>

text \<open>
  C10. For a matrix that satisfies the invariants, a coordinate \<open>(r, c)\<close> in range and
  any value \<open>v\<close>, the assignment \<open>M[r, c] = v\<close> returns, and every other
  coordinate \<open>(r', c')\<close> in range reads the same value after it as before.
\<close>

theorem set_leaves_other_entries:
  assumes "wf_matrix M" "0 \<le> r" "r < nrows M" "0 \<le> c" "c < ncols M"
    and "0 \<le> r'" "r' < nrows M" "0 \<le> c'" "c' < ncols M" and "(r', c') \<noteq> (r, c)"
  shows "\<exists>M' x. setitem M r c v = Some (Inr M') \<and> getitem M r' c' = Some (Inr x) \<and>
     getitem M' r' c' = Some (Inr x)"
proof -
  from assms(1) obtain L where wf: "wf_on L M" unfolding wf_matrix_def ..
  from setitem_wf [OF wf assms(2-5), of v] obtain M' L' where s:
    "setitem M r c v = Some (Inr M')" "set_effect L M r c v L' M'" by blast
  then have wf': "wf_on L' M'" and d: "nrows M' = nrows M"
    and ct: "content L' M' r' c' = content L M r' c'"
    using assms(10) unfolding set_effect_def by auto
  from getitem_wf [OF wf assms(6,7), of c'] obtain x where x:
    "getitem M r' c' = Some (Inr x)"
    "content L M r' c' = {} \<and> x = 0 \<or> content L M r' c' = {x}" by blast
  from getitem_wf [OF wf', of r' c'] assms(6,7) d obtain y where y:
    "getitem M' r' c' = Some (Inr y)"
    "content L' M' r' c' = {} \<and> y = 0 \<or> content L' M' r' c' = {y}" by auto
  from x(2) y(2) ct have "y = x" by auto
  with s(1) x(1) y(1) show ?thesis by blast
qed

theorem set_leaves_other_entries_witness:
  "\<exists>M' x. setitem
      \<lparr>nrows = 2, ncols = 3, prow = [Some 0, Some 3], pcol = [None, Some 0, Some 2],
      nodes =
        [\<lparr>row = 0, col = 1, el = 4, right = Some 2, down = Some 3\<rparr>,
         \<lparr>row = 1, col = 2, el = 7, right = None, down = None\<rparr>,
         \<lparr>row = 0, col = 2, el = 5, right = None, down = Some 1\<rparr>,
         \<lparr>row = 1, col = 1, el = 6, right = Some 1, down = None\<rparr>]\<rparr> 0 2 0 = Some (Inr M') \<and>
    getitem
      \<lparr>nrows = 2, ncols = 3, prow = [Some 0, Some 3], pcol = [None, Some 0, Some 2],
      nodes =
        [\<lparr>row = 0, col = 1, el = 4, right = Some 2, down = Some 3\<rparr>,
         \<lparr>row = 1, col = 2, el = 7, right = None, down = None\<rparr>,
         \<lparr>row = 0, col = 2, el = 5, right = None, down = Some 1\<rparr>,
         \<lparr>row = 1, col = 1, el = 6, right = Some 1, down = None\<rparr>]\<rparr> 1 2 = Some (Inr x) \<and>
    getitem M' 1 2 = Some (Inr x)"
proof -
  have "setitems (Matrix 2 3) [(0, 1, 4), (1, 2, 7), (0, 2, 5), (1, 1, 6)] = Some (Inr
      \<lparr>nrows = 2, ncols = 3, prow = [Some 0, Some 3], pcol = [None, Some 0, Some 2],
      nodes =
        [\<lparr>row = 0, col = 1, el = 4, right = Some 2, down = Some 3\<rparr>,
         \<lparr>row = 1, col = 2, el = 7, right = None, down = None\<rparr>,
         \<lparr>row = 0, col = 2, el = 5, right = None, down = Some 1\<rparr>,
         \<lparr>row = 1, col = 1, el = 6, right = Some 1, down = None\<rparr>]\<rparr>)"
    by code_simp
  with setitems_wf [OF wf_matrix_Matrix, of "[(0, 1, 4), (1, 2, 7), (0, 2, 5), (1, 1, 6)]" 2 3]
  have w: "wf_matrix
      \<lparr>nrows = 2, ncols = 3, prow = [Some 0, Some 3], pcol = [None, Some 0, Some 2],
      nodes =
        [\<lparr>row = 0, col = 1, el = 4, right = Some 2, down = Some 3\<rparr>,
         \<lparr>row = 1, col = 2, el = 7, right = None, down = None\<rparr>,
         \<lparr>row = 0, col = 2, el = 5, right = None, down = Some 1\<rparr>,
         \<lparr>row = 1, col = 1, el = 6, right = Some 1, down = None\<rparr>]\<rparr>"
    by (simp add: Matrix_def)
  show ?thesis by (rule set_leaves_other_entries [OF w]) simp_all
qed

section \<open>Dimension checks\<close>

text \<open>
  C9. \<open>__mul__\<close> raises the dimension error (a \<open>ValueError\<close> in the source)
  whenever the vector's length differs from \<open>ncols\<close>, \<open>__rmul__\<close> whenever it
  differs from \<open>nrows\<close>, and \<open>__add__\<close> whenever the operands' dimensions differ.
  The check is the first statement of each function, so the error is the whole outcome
  whatever the state of the chains, before any head is read or any node created. None of
  the three functions writes to an operand on any path, which is why the model passes the
  operands by value and returns only the result.
\<close>

theorem dimension_mismatch_raised_first:
  "(ncols M \<noteq> int (length v) \<longrightarrow> mul M v = Some (Inl ValueError)) \<and>
   (nrows M \<noteq> int (length v) \<longrightarrow> rmul v M = Some (Inl ValueError)) \<and>
   (nrows A \<noteq> nrows B \<or> ncols A \<noteq> ncols B \<longrightarrow> add A B = Some (Inl ValueError))"
  by (simp add: mul_def rmul_def add_def)

theorem dimension_mismatch_raised_first_witness:
  "mul (Matrix 3 3) [1, 2] = Some (Inl ValueError) \<and>
   rmul [1, 2] (Matrix 3 3) = Some (Inl ValueError) \<and>
   add (Matrix 2 3) (Matrix 3 2) = Some (Inl ValueError)"
  using dimension_mismatch_raised_first [of "Matrix 3 3" "[1, 2]" "Matrix 2 3" "Matrix 3 2"]
  by (simp add: Matrix_def)

section \<open>The scenario of the demonstration script\<close>

text \<open>
  C6, as stated: from \<open>identity(4)\<close>, after \<open>M[1,1] = 7\<close>, \<open>M[2,1] = 13\<close>,
  \<open>M[0,3] = -2\<close>, \<open>M[3,3] = 0\<close> and \<open>M[0,0] = 0\<close>, the product with
  \<open>[1, 2, 3, 4]\<close> would be \<open>[-7, 14, 29, 0]\<close>. It is not: the last assignment
  has removed the entry at (0, 0), so row 0 holds only \<open>-2\<close> in column 3.
\<close>

theorem scenario_product_not_minus_seven:
  "and_then main_m (\<lambda>m. mul m [1, 2, 3, 4]) \<noteq> Some (Inr [- 7, 14, 29, 0])"
  by code_simp

text \<open>
  C6, amended: after the five assignments the product with \<open>[1, 2, 3, 4]\<close> is
  \<open>[-8, 14, 29, 0]\<close>.
\<close>

theorem scenario_product:
  "and_then main_m (\<lambda>m. mul m [1, 2, 3, 4]) = Some (Inr [- 8, 14, 29, 0])"
  by code_simp

section \<open>Matrices without entries, and cancellation in a sum\<close>

text \<open>
  C2. The product of the 2 by 2 matrix without entries with a vector of length 2 should be
  \<open>[0, 0]\<close>. The scan for the first row with an entry has no bound, and reads
  \<open>self._prow[2]\<close>: the call raises \<open>IndexError\<close>.
\<close>

theorem mul_no_entries_raises:
  "mul (Matrix 2 2) [1, 2] = Some (Inl IndexError)"
  by code_simp

text \<open>
  C3. The sum of a matrix with a matrix of the same shape without entries should be the
  first matrix. The scan for the first row of \<open>rhs\<close> with an entry has no bound: for
  the 1 by 1 matrix holding 1 and the 1 by 1 matrix without entries the call raises
  \<open>IndexError\<close>.
\<close>

theorem add_no_entries_raises:
  "and_then (setitems (Matrix 1 1) [(0, 0, 1)]) (\<lambda>m. add m (Matrix 1 1)) = Some (Inl IndexError)"
  by code_simp

text \<open>In particular the call returns no matrix.\<close>

theorem add_no_entries_returns_nothing:
  "\<not> (\<exists>S. and_then (setitems (Matrix 1 1) [(0, 0, 1)]) (\<lambda>m. add m (Matrix 1 1)) = Some (Inr S))"
  using add_no_entries_raises by simp

text \<open>
  C4. \<open>transposed\<close> should succeed on a matrix without entries. The scan for the first
  column with an entry has no bound: on the 2 by 2 matrix without entries the call raises
  \<open>IndexError\<close>.
\<close>

theorem transposed_no_entries_raises:
  "transposed (Matrix 2 2) = Some (Inl IndexError)"
  by code_simp

text \<open>
  C5. Transposing twice should give a matrix equal to the first one, for every matrix. On
  the 3 by 2 matrix without entries already the first \<open>transposed\<close> raises
  \<open>IndexError\<close>, so neither the dimensions nor the comparison come about.
\<close>

theorem transposed_twice_no_entries_raises:
  "and_then (transposed (Matrix 3 2)) (\<lambda>t. and_then (transposed t) (\<lambda>u. eq u (Matrix 3 2)))
     = Some (Inl IndexError)"
  by code_simp

text \<open>In particular the comparison does not come out true.\<close>

theorem transposed_twice_no_entries_not_equal:
  "and_then (transposed (Matrix 3 2)) (\<lambda>t. and_then (transposed t) (\<lambda>u. eq u (Matrix 3 2)))
     \<noteq> Some (Inr True)"
  using transposed_twice_no_entries_raises by simp

text \<open>
  C1. With \<open>A = [[1, 0]]\<close> and \<open>B = [[-1, 5]]\<close> the sum should hold 5 at (0, 1).
  The merge removes the cancelled node at (0, 0) and keeps it as its cursor, so the entry
  for column 1 is linked behind a node that row 0 no longer reaches: the three values
  below are \<open>A[0,1]\<close>, \<open>B[0,1]\<close> and \<open>(A + B)[0,1]\<close>.
\<close>

theorem add_loses_entry_after_cancellation:
  "and_then (setitems (Matrix 1 2) [(0, 0, 1)]) (\<lambda>A.
   and_then (setitems (Matrix 1 2) [(0, 0, - 1), (0, 1, 5)]) (\<lambda>B.
   and_then (add A B) (\<lambda>S.
   and_then (getitem A 0 1) (\<lambda>x.
   and_then (getitem B 0 1) (\<lambda>y.
   and_then (getitem S 0 1) (\<lambda>z. Some (Inr (x, y, z))))))))
     = Some (Inr (0, 5, 0))"
  by code_simp

text \<open>In particular they are not 0, 5 and 5, as a pointwise sum would have them.\<close>

theorem add_loses_entry_not_the_sum:
  "and_then (setitems (Matrix 1 2) [(0, 0, 1)]) (\<lambda>A.
   and_then (setitems (Matrix 1 2) [(0, 0, - 1), (0, 1, 5)]) (\<lambda>B.
   and_then (add A B) (\<lambda>S.
   and_then (getitem A 0 1) (\<lambda>x.
   and_then (getitem B 0 1) (\<lambda>y.
   and_then (getitem S 0 1) (\<lambda>z. Some (Inr (x, y, z))))))))
     \<noteq> Some (Inr (0, 5, 5))"
  using add_loses_entry_after_cancellation by simp

end
